theory Spec2Isabelle
  imports Main
begin

section \<open>Data model of thai\_reading\_order.py\<close>

text \<open>
  A Python string is a sequence of Unicode code points. The characters of Thai script lie
  outside the 8-bit \<open>char\<close> of HOL, so a character is modelled by its code point and a
  string by a list of code points. The two placeholders of a pattern are the letters
  \<open>x\<close> (code point 120) and \<open>f\<close> (code point 102).
\<close>

type_synonym uchar = nat
type_synonym ustring = "nat list"

definition sym_x :: uchar where
  "sym_x = 120"

definition sym_f :: uchar where
  "sym_f = 102"

text \<open>
  Two exceptions can escape the code. The matching code can raise the \<open>IndexError\<close> of a
  string subscript, and the recursive search can raise the \<open>RecursionError\<close> of the
  interpreter when its calls nest deeper than the interpreter allows.

  \<open>char_at\<close> is the subscript \<open>text[i]\<close>. It is stricter than Python: an
  index below zero, which Python would count from the end of the string, is reported as an
  error too. A result that is not an error has therefore read only indices of
  \<open>[0, len(text))\<close>, and on such reads the model and Python agree.
\<close>

datatype error = IndexError int | RecursionError

definition char_at :: "ustring \<Rightarrow> int \<Rightarrow> error + uchar" where
  "char_at txt i =
     (if 0 \<le> i \<and> i < int (length txt) then Inr (txt ! nat i) else Inl (IndexError i))"

text \<open>
  The attributes of \<open>ThaiReadingOrderAnalyzer\<close> that the matching reads. The constructor
  sets \<open>tone_marks\<close> to the four Thai tone marks; the functions below read the attribute
  and hold for any value of it.
\<close>

record analyzer =
  foundation :: "uchar set"
  vowel_patterns :: "ustring list"
  tone_marks :: "uchar set"

definition thai_tone_marks :: "uchar set" where
  "thai_tone_marks = {3656, 3657, 3658, 3659}"

definition init :: "uchar set \<Rightarrow> ustring list \<Rightarrow> analyzer" where
  "init foundation_data pattern_keys =
     \<lparr>foundation = foundation_data, vowel_patterns = pattern_keys,
      tone_marks = thai_tone_marks\<rparr>"

text \<open>The foundation dictionary built by \<open>match_foundation\<close>.\<close>

record container =
  consonants :: ustring
  tone :: "uchar option"
  tone_owner :: "nat option"
  positions :: "int list"

text \<open>The dictionary returned by \<open>try_match_pattern_with_foundation\<close>.\<close>

record pmatch =
  m_pattern :: ustring
  m_foundation :: "container option"
  m_vowel_text :: ustring
  m_final :: "container option"
  m_positions :: "int list"

text \<open>The syllable dictionary built in \<open>explore_segmentations\<close>.\<close>

record syllable =
  s_foundation :: "container option"
  s_vowel :: ustring
  s_final :: "container option"
  s_pattern :: ustring

text \<open>An entry of \<open>unique_readings\<close>, and the dictionary the search returns.\<close>

record reading =
  syllables :: "syllable list"
  reading_order :: "ustring list"
  matched_text :: ustring

record segmentation =
  r_text :: ustring
  readings :: "reading list"
  is_ambiguous :: bool
  unmatched :: "uchar list"

section \<open>match\_foundation\<close>

text \<open>
  The \<open>while\<close> loop of \<open>match_foundation\<close>, with the loop variables
  \<open>consonants_found\<close>, \<open>idx\<close> and the dictionary under construction as arguments.
  \<open>Inr None\<close> is the return of \<open>None\<close>. The two counters are natural numbers: the
  callers pass a count of 0, 1, 2 or 3, and \<open>consonants_found\<close> counts up from 0. Text
  indices are integers, since a start offset may be negative.
\<close>

function match_foundation_loop ::
  "analyzer \<Rightarrow> ustring \<Rightarrow> nat \<Rightarrow> nat \<Rightarrow> int \<Rightarrow> container \<Rightarrow> error + container option" where
  "match_foundation_loop self txt consonant_count consonants_found idx fnd =
     (if consonants_found < consonant_count \<and> idx < int (length txt) then
        (case char_at txt idx of
           Inl e \<Rightarrow> Inl e
         | Inr c \<Rightarrow>
             if c \<notin> foundation self then Inr None
             else if idx + 1 < int (length txt) then
               (case char_at txt (idx + 1) of
                  Inl e \<Rightarrow> Inl e
                | Inr t \<Rightarrow>
                    if t \<in> tone_marks self then
                      match_foundation_loop self txt consonant_count (consonants_found + 1)
                        (idx + 1 + 1)
                        (fnd\<lparr>consonants := consonants fnd @ [c],
                             tone := Some t,
                             tone_owner := Some consonants_found,
                             positions := positions fnd @ [idx] @ [idx + 1]\<rparr>)
                    else
                      match_foundation_loop self txt consonant_count (consonants_found + 1)
                        (idx + 1)
                        (fnd\<lparr>consonants := consonants fnd @ [c],
                             positions := positions fnd @ [idx]\<rparr>))
             else
               match_foundation_loop self txt consonant_count (consonants_found + 1)
                 (idx + 1)
                 (fnd\<lparr>consonants := consonants fnd @ [c],
                      positions := positions fnd @ [idx]\<rparr>))
      else if consonants_found \<noteq> consonant_count then Inr None
      else Inr (Some fnd))"
  by pat_completeness auto
termination
  by (relation "measure (\<lambda>(self, txt, consonant_count, consonants_found, idx, fnd).
        consonant_count - consonants_found)") auto

declare match_foundation_loop.simps [simp del]

definition empty_container :: container where
  "empty_container = \<lparr>consonants = [], tone = None, tone_owner = None, positions = []\<rparr>"

definition match_foundation ::
  "analyzer \<Rightarrow> ustring \<Rightarrow> int \<Rightarrow> nat \<Rightarrow> error + container option" where
  "match_foundation self txt start_pos consonant_count =
     (if start_pos < 0 \<or> start_pos \<ge> int (length txt) then Inr None
      else match_foundation_loop self txt consonant_count 0 start_pos empty_container)"

section \<open>try\_match\_pattern\_with\_foundation\<close>

text \<open>
  The \<open>while\<close> loop over \<open>pattern_idx\<close> visits the symbols of the pattern in order, one
  per iteration, and leaves only by \<open>return None\<close> or when every symbol is consumed; the
  recursion is over the symbols that remain. The check after the loop
  (\<open>pattern_idx != len(pattern)\<close>) can then never hold. A dictionary is true in a Python
  condition whenever it is not \<open>None\<close>, since the dictionaries here always have keys.
\<close>

fun try_match_loop ::
  "analyzer \<Rightarrow> ustring \<Rightarrow> nat \<Rightarrow> ustring \<Rightarrow> int \<Rightarrow> pmatch \<Rightarrow> error + pmatch option" where
  "try_match_loop self txt cluster_size [] text_idx m = Inr (Some m)"
| "try_match_loop self txt cluster_size (p_char # rest) text_idx m =
     (if text_idx < 0 \<or> text_idx \<ge> int (length txt) then Inr None
      else if p_char = sym_x then
        (case match_foundation self txt text_idx cluster_size of
           Inl e \<Rightarrow> Inl e
         | Inr None \<Rightarrow> Inr None
         | Inr (Some fnd) \<Rightarrow>
             try_match_loop self txt cluster_size rest
               (if positions fnd \<noteq> [] then last (positions fnd) + 1 else text_idx + 1)
               (m\<lparr>m_foundation := Some fnd, m_positions := m_positions m @ positions fnd\<rparr>))
      else if p_char = sym_f then
        (case match_foundation self txt text_idx 1 of
           Inl e \<Rightarrow> Inl e
         | Inr None \<Rightarrow> Inr None
         | Inr (Some fnd) \<Rightarrow>
             try_match_loop self txt cluster_size rest
               (if positions fnd \<noteq> [] then last (positions fnd) + 1 else text_idx + 1)
               (m\<lparr>m_final := Some fnd, m_positions := m_positions m @ positions fnd\<rparr>))
      else if text_idx \<ge> 0 \<and> text_idx < int (length txt) then
        (case char_at txt text_idx of
           Inl e \<Rightarrow> Inl e
         | Inr c \<Rightarrow>
             if c = p_char then
               try_match_loop self txt cluster_size rest (text_idx + 1)
                 (m\<lparr>m_vowel_text := m_vowel_text m @ [c],
                    m_positions := m_positions m @ [text_idx]\<rparr>)
             else Inr None)
      else Inr None)"

definition empty_match :: "ustring \<Rightarrow> pmatch" where
  "empty_match pattern =
     \<lparr>m_pattern = pattern, m_foundation = None, m_vowel_text = [], m_final = None,
      m_positions = []\<rparr>"

definition try_match_pattern_with_foundation ::
  "analyzer \<Rightarrow> ustring \<Rightarrow> int \<Rightarrow> ustring \<Rightarrow> int set \<Rightarrow> nat \<Rightarrow> error + pmatch option" where
  "try_match_pattern_with_foundation self txt start_pos pattern used cluster_size =
     try_match_loop self txt cluster_size pattern start_pos (empty_match pattern)"

section \<open>find\_pattern\_matches\<close>

text \<open>
  A loop that appends to a list and lets an exception of its body escape:
  \<open>collect_e\<close> concatenates what the iterations append, or is the first error.
\<close>

fun collect_e :: "(error + 'a list) list \<Rightarrow> error + 'a list" where
  "collect_e [] = Inr []"
| "collect_e (r # rs) =
     (case r of
        Inl e \<Rightarrow> Inl e
      | Inr ys \<Rightarrow> (case collect_e rs of Inl e \<Rightarrow> Inl e | Inr zs \<Rightarrow> Inr (ys @ zs)))"

text \<open>
  One attempt of \<open>find_pattern_matches\<close>: the match is appended when it is not
  \<open>None\<close> and none of its positions is in \<open>used\<close>.
\<close>

definition keep_match :: "int set \<Rightarrow> error + pmatch option \<Rightarrow> error + pmatch list" where
  "keep_match used r =
     (case r of
        Inl e \<Rightarrow> Inl e
      | Inr None \<Rightarrow> Inr []
      | Inr (Some m) \<Rightarrow>
          if \<not> list_ex (\<lambda>pos. pos \<in> used) (m_positions m) then Inr [m] else Inr [])"

definition find_pattern_matches ::
  "analyzer \<Rightarrow> ustring \<Rightarrow> ustring \<Rightarrow> int set \<Rightarrow> error + pmatch list" where
  "find_pattern_matches self txt pattern used =
     collect_e (map (\<lambda>start_pos.
         if sym_x \<in> set pattern then
           collect_e (map (\<lambda>cluster_size.
               keep_match used
                 (try_match_pattern_with_foundation self txt start_pos pattern used cluster_size))
             [1..<min 3 (length txt) + 1])
         else
           keep_match used
             (try_match_pattern_with_foundation self txt start_pos pattern used 0))
       [-5..int (length txt) - 1])"

section \<open>findThaiGraphemeOrderDomain\<close>

text \<open>The loop \<open>while pos < text_len and pos in used: pos += 1\<close>.\<close>

function next_unused :: "nat \<Rightarrow> int set \<Rightarrow> nat \<Rightarrow> nat" where
  "next_unused text_len used pos =
     (if pos < text_len \<and> int pos \<in> used then next_unused text_len used (pos + 1) else pos)"
  by pat_completeness auto
termination
  by (relation "measure (\<lambda>(text_len, used, pos). text_len - pos)") auto

declare next_unused.simps [simp del]

definition syllable_of :: "pmatch \<Rightarrow> syllable" where
  "syllable_of m =
     \<lparr>s_foundation = m_foundation m, s_vowel = m_vowel_text m, s_final = m_final m,
      s_pattern = m_pattern m\<rparr>"

text \<open>
  The closure \<open>explore_segmentations\<close> appends the readings it accepts to the list
  \<open>all_readings\<close> of the enclosing call; the model returns the readings one call
  appends, in the order it appends them. \<open>len(used)\<close> is the cardinality of the set.

  The closure calls itself once for every syllable it accepts, and the source puts no bound
  on the depth of these calls: the bound is the interpreter's (\<open>sys.getrecursionlimit()\<close>,
  1000 unless it is changed, less the frames in use when the search starts), and a call
  beyond it raises \<open>RecursionError\<close>, which nothing in the source catches. The first
  argument \<open>room\<close> is the number of nested activations of the closure that the interpreter
  can still hold: an activation with no room left raises, and a recursive call leaves one
  less to the activation it starts. The frames of the calls that an activation makes to the
  matcher are at most three deep at every depth of the search, and are counted with the
  activation. The source has no such argument; it is the state of the interpreter's stack,
  and the statements below hold for every value of it. The value that a search returns, when
  it returns one, does not depend on the room. The recursion is shown to terminate by the
  growth of the used set, not by this argument.
\<close>

function explore_segmentations ::
  "nat \<Rightarrow> analyzer \<Rightarrow> ustring \<Rightarrow> nat \<Rightarrow> int set \<Rightarrow> syllable list
     \<Rightarrow> error + syllable list list" where
  "explore_segmentations room self txt pos used current_reading =
     (if room = 0 then Inl RecursionError
      else if card used = length txt then
        (if length current_reading = 1 then Inr [current_reading] else Inr [])
      else if next_unused (length txt) used pos \<ge> length txt then Inr []
      else
        collect_e (map (\<lambda>pattern.
            case find_pattern_matches self txt pattern used of
              Inl e \<Rightarrow> Inl e
            | Inr matches \<Rightarrow>
                collect_e (map (\<lambda>m.
                    if int (next_unused (length txt) used pos) \<in> set (m_positions m) then
                      explore_segmentations (room - 1) self txt 0
                        (used \<union> set (m_positions m)) (current_reading @ [syllable_of m])
                    else Inr [])
                  matches))
          (vowel_patterns self)))"
  by pat_completeness auto

termination explore_segmentations
proof (relation "measure (\<lambda>(room, self, txt, pos, used, current_reading).
          card ({0..<int (length txt)} - used))", goal_cases)
  case 1
  show ?case by simp
next
  case (2 x0 x1 x2 x3 x4 x5 x6 x7 x8)
  have free: "int (next_unused n used pos) \<notin> used" if "next_unused n used pos < n"
    for n used pos
    using that
  proof (induction n used pos rule: next_unused.induct)
    case (1 text_len used pos)
    show ?case
    proof (cases "pos < text_len \<and> int pos \<in> used")
      case True
      then have eq: "next_unused text_len used pos = next_unused text_len used (pos + 1)"
        by (subst next_unused.simps) simp
      from "1.IH" [OF True] "1.prems" show ?thesis
        unfolding eq by blast
    next
      case False
      then have eq: "next_unused text_len used pos = pos"
        by (subst next_unused.simps) auto
      from False "1.prems" show ?thesis
        unfolding eq by blast
    qed
  qed
  from 2 have lt: "next_unused (length x2) x4 x3 < length x2" by simp
  from 2 have pm: "int (next_unused (length x2) x4 x3) \<in> set (m_positions x8)" by simp
  have "card ({0..<int (length x2)} - (x4 \<union> set (m_positions x8)))
        < card ({0..<int (length x2)} - x4)"
  proof (rule psubset_card_mono)
    show "finite ({0..<int (length x2)} - x4)" by simp
    have a: "int (next_unused (length x2) x4 x3) \<in> {0..<int (length x2)} - x4"
      using lt free [OF lt] by simp
    have b: "int (next_unused (length x2) x4 x3)
        \<notin> {0..<int (length x2)} - (x4 \<union> set (m_positions x8))"
      using pm by simp
    have c: "{0..<int (length x2)} - (x4 \<union> set (m_positions x8))
        \<subseteq> {0..<int (length x2)} - x4" by blast
    from a b c show "{0..<int (length x2)} - (x4 \<union> set (m_positions x8))
        \<subset> {0..<int (length x2)} - x4" by blast
  qed
  then show ?case by simp
qed

declare explore_segmentations.simps [simp del]

section \<open>Assembling the result\<close>

definition render_foundation :: "container option \<Rightarrow> ustring" where
  "render_foundation fo =
     (case fo of
        None \<Rightarrow> []
      | Some fnd \<Rightarrow>
          if consonants fnd = [] then []
          else concat (map (\<lambda>(i, consonant).
                 case tone fnd of
                   None \<Rightarrow> [consonant]
                 | Some t \<Rightarrow> if tone_owner fnd = Some i then [consonant] @ [t] else [consonant])
               (enumerate 0 (consonants fnd))))"

definition syllable_tokens :: "syllable \<Rightarrow> ustring list" where
  "syllable_tokens s =
     (if render_foundation (s_foundation s) \<noteq> [] then [render_foundation (s_foundation s)]
      else [])
     @ (if s_vowel s \<noteq> [] then [s_vowel s] else [])
     @ (case s_final s of None \<Rightarrow> [] | Some fnd \<Rightarrow> [render_foundation (s_final s)])"

definition build_reading :: "syllable list \<Rightarrow> reading" where
  "build_reading syls =
     \<lparr>syllables = syls, reading_order = concat (map syllable_tokens syls),
      matched_text = concat (concat (map syllable_tokens syls))\<rparr>"

text \<open>
  The deduplication loop. The source keeps the set \<open>seen\<close> of the strings
  \<open>str(reading)\<close>. The string of a reading prints every key of every dictionary in it,
  the \<open>positions\<close> of the foundation and final dictionaries included, and two readings
  print alike only when they are equal; the model keeps the readings themselves.
\<close>

fun unique_readings_loop :: "syllable list list \<Rightarrow> syllable list set \<Rightarrow> reading list" where
  "unique_readings_loop [] seen = []"
| "unique_readings_loop (r # rs) seen =
     (if r \<notin> seen then build_reading r # unique_readings_loop rs (insert r seen)
      else unique_readings_loop rs seen)"

text \<open>
  The method \<open>findThaiGraphemeOrderDomain\<close>. Its first argument is the room of the
  interpreter for the activations of the closure when the search starts.
\<close>

definition findThaiGraphemeOrderDomain ::
  "nat \<Rightarrow> analyzer \<Rightarrow> ustring \<Rightarrow> error + segmentation" where
  "findThaiGraphemeOrderDomain room self txt =
     (if txt = [] then
        Inr \<lparr>r_text = txt, readings = [], is_ambiguous = False, unmatched = []\<rparr>
      else
        (case explore_segmentations room self txt 0 {} [] of
           Inl e \<Rightarrow> Inl e
         | Inr all_readings \<Rightarrow>
             Inr \<lparr>r_text = txt,
                  readings = unique_readings_loop all_readings {},
                  is_ambiguous = (length (unique_readings_loop all_readings {}) > 1),
                  unmatched = []\<rparr>))"

section \<open>Definitions for the statements and their proofs\<close>

text \<open>
  \<open>cons_pos self txt start k\<close> is the text position of the consonant with index \<open>k\<close>
  in a group that starts at \<open>start\<close>: the first consonant stands at \<open>start\<close>, and
  the next one stands one position after the previous consonant, or two when the previous
  consonant is immediately followed by a tone mark. \<open>toned\<close> says that the consonant
  with index \<open>k\<close> is immediately followed by a tone mark.
\<close>

fun cons_pos :: "analyzer \<Rightarrow> ustring \<Rightarrow> int \<Rightarrow> nat \<Rightarrow> int" where
  "cons_pos self txt start 0 = start"
| "cons_pos self txt start (Suc k) =
     (if cons_pos self txt start k + 1 < int (length txt)
         \<and> txt ! nat (cons_pos self txt start k + 1) \<in> tone_marks self
      then cons_pos self txt start k + 2 else cons_pos self txt start k + 1)"

definition toned :: "analyzer \<Rightarrow> ustring \<Rightarrow> int \<Rightarrow> nat \<Rightarrow> bool" where
  "toned self txt start k \<longleftrightarrow>
     cons_pos self txt start k + 1 < int (length txt)
     \<and> txt ! nat (cons_pos self txt start k + 1) \<in> tone_marks self"

text \<open>
  The invariant of the loop of \<open>match_foundation\<close>, after \<open>cf\<close> consonants, with the
  cursor at \<open>idx\<close>: the positions consumed are the interval from \<open>start\<close> to the
  cursor, consonant \<open>i\<close> is the character at \<open>cons_pos i\<close>, and the tone recorded is
  the one after the last toned consonant so far.
\<close>

definition mf_inv :: "analyzer \<Rightarrow> ustring \<Rightarrow> int \<Rightarrow> nat \<Rightarrow> int \<Rightarrow> container \<Rightarrow> bool" where
  "mf_inv self txt start cf idx fnd \<longleftrightarrow>
     0 \<le> start \<and> idx = cons_pos self txt start cf \<and> idx \<le> int (length txt) \<and>
     length (consonants fnd) = cf \<and>
     positions fnd = [start..idx - 1] \<and>
     (\<forall>i<cf. cons_pos self txt start i < int (length txt)) \<and>
     (\<forall>i<cf. consonants fnd ! i = txt ! nat (cons_pos self txt start i)) \<and>
     (\<forall>i<cf. txt ! nat (cons_pos self txt start i) \<in> foundation self) \<and>
     (case tone_owner fnd of
        None \<Rightarrow> tone fnd = None \<and> (\<forall>i<cf. \<not> toned self txt start i)
      | Some k \<Rightarrow> k < cf \<and> toned self txt start k
          \<and> tone fnd = Some (txt ! nat (cons_pos self txt start k + 1))
          \<and> (\<forall>i<cf. k < i \<longrightarrow> \<not> toned self txt start i))"

text \<open>
  No attempt of the matcher raises, so \<open>find_pattern_matches\<close> always returns a list:
  \<open>matches_of\<close> is that list. \<open>kept\<close> is the filter of one attempt.
\<close>

definition kept :: "int set \<Rightarrow> error + pmatch option \<Rightarrow> pmatch list" where
  "kept used r =
     (case r of
        Inr (Some m) \<Rightarrow> if \<not> list_ex (\<lambda>pos. pos \<in> used) (m_positions m) then [m] else []
      | _ \<Rightarrow> [])"

definition matches_of :: "analyzer \<Rightarrow> ustring \<Rightarrow> ustring \<Rightarrow> int set \<Rightarrow> pmatch list" where
  "matches_of self txt pattern used =
     concat (map (\<lambda>start_pos.
         if sym_x \<in> set pattern then
           concat (map (\<lambda>cluster_size.
               kept used
                 (try_match_pattern_with_foundation self txt start_pos pattern used cluster_size))
             [1..<min 3 (length txt) + 1])
         else
           kept used (try_match_pattern_with_foundation self txt start_pos pattern used 0))
       [-5..int (length txt) - 1])"

text \<open>
  The readings that the search from the initial state appends when no call runs out of
  room, for a text that is not empty: one per pattern and per match of the pattern that
  covers position 0 and whose positions are as many as the text has characters.
\<close>

definition raw_readings :: "analyzer \<Rightarrow> ustring \<Rightarrow> syllable list list" where
  "raw_readings self txt =
     concat (map (\<lambda>pattern.
         concat (map (\<lambda>m.
             if 0 \<in> set (m_positions m) \<and> card (set (m_positions m)) = length txt
             then [[syllable_of m]] else [])
           (matches_of self txt pattern {})))
       (vowel_patterns self))"

text \<open>
  What the invariant asks of a container: every consonant is in the foundation set; and
  when a tone is recorded, the tone is a tone mark, the owner is the index of a consonant
  of the container, and with \<open>q\<close> the text position of that consonant (counted from the
  first position of the container), the character at \<open>q\<close> is the owner, the character at
  \<open>q + 1\<close> is the tone, and both positions are among the positions of the container.
\<close>

definition container_ok :: "analyzer \<Rightarrow> ustring \<Rightarrow> container \<Rightarrow> bool" where
  "container_ok self txt f \<longleftrightarrow>
     set (consonants f) \<subseteq> foundation self \<and>
     (case tone f of
        None \<Rightarrow> True
      | Some t \<Rightarrow>
          t \<in> tone_marks self \<and>
          (case tone_owner f of
             None \<Rightarrow> False
           | Some k \<Rightarrow>
               k < length (consonants f) \<and>
               cons_pos self txt (hd (positions f)) k \<in> set (positions f) \<and>
               0 \<le> cons_pos self txt (hd (positions f)) k \<and>
               txt ! nat (cons_pos self txt (hd (positions f)) k) = consonants f ! k \<and>
               cons_pos self txt (hd (positions f)) k + 1 \<in> set (positions f) \<and>
               cons_pos self txt (hd (positions f)) k + 1 < int (length txt) \<and>
               txt ! nat (cons_pos self txt (hd (positions f)) k + 1) = t))"



text \<open>The analyzers and the readings of the worked examples.\<close>

definition elw_analyzer :: analyzer where
  "elw_analyzer = init {3621, 3623} [[3648, 120, 3623], [3648, 120, 102], [3648, 120]]"

definition elw_reading_1 :: reading where
  "elw_reading_1 =
     \<lparr>syllables =
        [\<lparr>s_foundation = Some \<lparr>consonants = [3621], tone = None, tone_owner = None,
                                 positions = [1]\<rparr>,
          s_vowel = [3648, 3623], s_final = None, s_pattern = [3648, 120, 3623]\<rparr>],
      reading_order = [[3621], [3648, 3623]],
      matched_text = [3621, 3648, 3623]\<rparr>"

definition elw_reading_2 :: reading where
  "elw_reading_2 =
     \<lparr>syllables =
        [\<lparr>s_foundation = Some \<lparr>consonants = [3621], tone = None, tone_owner = None,
                                 positions = [1]\<rparr>,
          s_vowel = [3648],
          s_final = Some \<lparr>consonants = [3623], tone = None, tone_owner = None,
                            positions = [2]\<rparr>,
          s_pattern = [3648, 120, 102]\<rparr>],
      reading_order = [[3621], [3648], [3623]],
      matched_text = [3621, 3648, 3623]\<rparr>"

definition elw_reading_3 :: reading where
  "elw_reading_3 =
     \<lparr>syllables =
        [\<lparr>s_foundation = Some \<lparr>consonants = [3621, 3623], tone = None, tone_owner = None,
                                 positions = [1, 2]\<rparr>,
          s_vowel = [3648], s_final = None, s_pattern = [3648, 120]\<rparr>],
      reading_order = [[3621, 3623], [3648]],
      matched_text = [3621, 3623, 3648]\<rparr>"

definition aya_analyzer :: analyzer where
  "aya_analyzer = init {3629, 3618} [[120, 3634]]"

definition aya_reading :: reading where
  "aya_reading =
     \<lparr>syllables =
        [\<lparr>s_foundation = Some \<lparr>consonants = [3629, 3618], tone = Some 3656,
                                 tone_owner = Some 1, positions = [0, 1, 2]\<rparr>,
          s_vowel = [3634], s_final = None, s_pattern = [120, 3634]\<rparr>],
      reading_order = [[3629, 3618, 3656], [3634]],
      matched_text = [3629, 3618, 3656, 3634]\<rparr>"

text \<open>
  The text \<open>kaka\<close>, two syllables \<open>ka\<close> with the one template \<open>x\<close> followed by
  the vowel: the two matches of the template, at offsets 0 and 2. Their syllables have the
  same template, consonants, tone and vowel text, and differ in the position list of the
  foundation container only.
\<close>

definition kaka_analyzer :: analyzer where
  "kaka_analyzer = init {3585} [[120, 3634]]"

definition ka_first :: pmatch where
  "ka_first =
     \<lparr>m_pattern = [120, 3634],
      m_foundation = Some \<lparr>consonants = [3585], tone = None, tone_owner = None,
                            positions = [0]\<rparr>,
      m_vowel_text = [3634], m_final = None, m_positions = [0, 1]\<rparr>"

definition ka_second :: pmatch where
  "ka_second =
     \<lparr>m_pattern = [120, 3634],
      m_foundation = Some \<lparr>consonants = [3585], tone = None, tone_owner = None,
                            positions = [2]\<rparr>,
      m_vowel_text = [3634], m_final = None, m_positions = [2, 3]\<rparr>"

text \<open>
  The text of \<open>n\<close> syllables \<open>ka\<close> (in Python, the two characters repeated \<open>n\<close>
  times), and the match of the template at its syllable \<open>k\<close>, counted from 0.
\<close>

definition ka_text :: "nat \<Rightarrow> ustring" where
  "ka_text n = concat (replicate n [3585, 3634])"

definition ka_match :: "nat \<Rightarrow> pmatch" where
  "ka_match k =
     \<lparr>m_pattern = [120, 3634],
      m_foundation = Some \<lparr>consonants = [3585], tone = None, tone_owner = None,
                            positions = [int (2 * k)]\<rparr>,
      m_vowel_text = [3634], m_final = None,
      m_positions = [int (2 * k), int (2 * k) + 1]\<rparr>"


section \<open>The first unused position\<close>

lemma next_unused_free:
  "next_unused n used pos < n \<Longrightarrow> int (next_unused n used pos) \<notin> used"
proof (induction n used pos rule: next_unused.induct)
  case (1 text_len used pos)
  show ?case
  proof (cases "pos < text_len \<and> int pos \<in> used")
    case True
    then have eq: "next_unused text_len used pos = next_unused text_len used (pos + 1)"
      by (subst next_unused.simps) simp
    from "1.IH" [OF True] "1.prems" show ?thesis
      unfolding eq by blast
  next
    case False
    then have eq: "next_unused text_len used pos = pos"
      by (subst next_unused.simps) auto
    from False "1.prems" show ?thesis
      unfolding eq by blast
  qed
qed

lemma uncovered_decreases:
  assumes "p < n" and "int p \<notin> used" and "int p \<in> P"
  shows "card ({0..<int n} - (used \<union> P)) < card ({0..<int n} - used)"
proof (rule psubset_card_mono)
  show "finite ({0..<int n} - used)" by simp
  have "int p \<in> {0..<int n} - used" using assms by simp
  moreover have "int p \<notin> {0..<int n} - (used \<union> P)" using assms by simp
  moreover have "{0..<int n} - (used \<union> P) \<subseteq> {0..<int n} - used" by blast
  ultimately show "{0..<int n} - (used \<union> P) \<subset> {0..<int n} - used" by blast
qed

section \<open>The loop of match\_foundation keeps its invariant\<close>

lemma cons_pos_Suc_toned:
  "toned self txt start k \<Longrightarrow> cons_pos self txt start (Suc k) = cons_pos self txt start k + 2"
  by (simp add: toned_def)

lemma cons_pos_Suc_plain:
  "\<not> toned self txt start k \<Longrightarrow> cons_pos self txt start (Suc k) = cons_pos self txt start k + 1"
  by (simp add: toned_def)

lemma upto_snoc: "(i::int) \<le> j + 1 \<Longrightarrow> [i..j + 1] = [i..j] @ [j + 1]"
  by (simp add: upto_rec2)

lemma mf_inv_init:
  "0 \<le> start \<Longrightarrow> start < int (length txt) \<Longrightarrow> mf_inv self txt start 0 start empty_container"
  by (simp add: mf_inv_def empty_container_def)

lemma mf_inv_start_le: "mf_inv self txt start cf idx fnd \<Longrightarrow> start \<le> idx"
proof -
  have "start \<le> cons_pos self txt start k" for k
    by (induction k) auto
  then show "mf_inv self txt start cf idx fnd \<Longrightarrow> start \<le> idx"
    by (simp add: mf_inv_def)
qed

declare cons_pos.simps(2) [simp del]

lemma mf_invD:
  assumes "mf_inv self txt start cf idx fnd"
  shows "0 \<le> start" and "idx = cons_pos self txt start cf" and "idx \<le> int (length txt)"
    and "length (consonants fnd) = cf" and "positions fnd = [start..idx - 1]"
    and "\<And>i. i < cf \<Longrightarrow> cons_pos self txt start i < int (length txt)"
    and "\<And>i. i < cf \<Longrightarrow> consonants fnd ! i = txt ! nat (cons_pos self txt start i)"
    and "\<And>i. i < cf \<Longrightarrow> txt ! nat (cons_pos self txt start i) \<in> foundation self"
    and "tone_owner fnd = None \<Longrightarrow> tone fnd = None"
    and "\<And>i. tone_owner fnd = None \<Longrightarrow> i < cf \<Longrightarrow> \<not> toned self txt start i"
    and "\<And>k. tone_owner fnd = Some k \<Longrightarrow> k < cf \<and> toned self txt start k
          \<and> tone fnd = Some (txt ! nat (cons_pos self txt start k + 1))"
    and "\<And>k i. tone_owner fnd = Some k \<Longrightarrow> i < cf \<Longrightarrow> k < i \<Longrightarrow> \<not> toned self txt start i"
  using assms by (auto simp: mf_inv_def split: option.splits)

lemma mf_invI:
  assumes "0 \<le> start" and "idx = cons_pos self txt start cf" and "idx \<le> int (length txt)"
    and "length (consonants fnd) = cf" and "positions fnd = [start..idx - 1]"
    and "\<And>i. i < cf \<Longrightarrow> cons_pos self txt start i < int (length txt)"
    and "\<And>i. i < cf \<Longrightarrow> consonants fnd ! i = txt ! nat (cons_pos self txt start i)"
    and "\<And>i. i < cf \<Longrightarrow> txt ! nat (cons_pos self txt start i) \<in> foundation self"
    and "case tone_owner fnd of
        None \<Rightarrow> tone fnd = None \<and> (\<forall>i<cf. \<not> toned self txt start i)
      | Some k \<Rightarrow> k < cf \<and> toned self txt start k
          \<and> tone fnd = Some (txt ! nat (cons_pos self txt start k + 1))
          \<and> (\<forall>i<cf. k < i \<longrightarrow> \<not> toned self txt start i)"
  shows "mf_inv self txt start cf idx fnd"
  unfolding mf_inv_def by (intro conjI allI impI assms)

lemma upto_two_more:
  assumes "(start::int) \<le> idx" and "e = idx + 1"
  shows "[start..e] = [start..idx - 1] @ [idx, idx + 1]"
proof -
  have "[start..idx + 1] = [start..idx] @ [idx + 1]" using assms(1) by (simp add: upto_rec2)
  moreover have "[start..idx] = [start..idx - 1] @ [idx]" using assms(1) by (simp add: upto_rec2)
  ultimately have "[start..idx + 1] = [start..idx - 1] @ [idx, idx + 1]"
    by (simp only: append_assoc append_Cons append_Nil)
  with assms(2) show ?thesis by (simp only:)
qed

lemma upto_one_more:
  assumes "(start::int) \<le> idx"
  shows "[start..idx] = [start..idx - 1] @ [idx]"
  using assms by (simp add: upto_rec2)

lemma mf_inv_elems:
  assumes inv: "mf_inv self txt start cf idx fnd"
    and lt: "idx < int (length txt)" and c: "txt ! nat idx \<in> foundation self"
    and i: "i < Suc cf"
  shows "cons_pos self txt start i < int (length txt)"
    and "(consonants fnd @ [txt ! nat idx]) ! i = txt ! nat (cons_pos self txt start i)"
    and "txt ! nat (cons_pos self txt start i) \<in> foundation self"
proof -
  note d = mf_invD [OF inv]
  from i consider "i < cf" | "i = cf" by linarith
  then have "cons_pos self txt start i < int (length txt)
      \<and> (consonants fnd @ [txt ! nat idx]) ! i = txt ! nat (cons_pos self txt start i)
      \<and> txt ! nat (cons_pos self txt start i) \<in> foundation self"
  proof cases
    case 1
    with d(4) d(6) [OF 1] d(7) [OF 1] d(8) [OF 1] show ?thesis by (simp add: nth_append)
  next
    case 2
    with d(4) d(2) lt c show ?thesis by (simp add: nth_append)
  qed
  then show "cons_pos self txt start i < int (length txt)"
    and "(consonants fnd @ [txt ! nat idx]) ! i = txt ! nat (cons_pos self txt start i)"
    and "txt ! nat (cons_pos self txt start i) \<in> foundation self"
    by blast+
qed

lemma mf_inv_step_tone:
  assumes inv: "mf_inv self txt start cf idx fnd"
    and lt: "idx < int (length txt)" and c: "txt ! nat idx \<in> foundation self"
    and lt1: "idx + 1 < int (length txt)" and t: "txt ! nat (idx + 1) \<in> tone_marks self"
    and idx': "idx' = idx + 2"
  shows "mf_inv self txt start (Suc cf) idx'
           (fnd\<lparr>consonants := consonants fnd @ [txt ! nat idx],
                tone := Some (txt ! nat (idx + 1)),
                tone_owner := Some cf,
                positions := positions fnd @ [idx, idx + 1]\<rparr>)"
proof (rule mf_invI)
  note d = mf_invD [OF inv]
  from lt1 t d(2) have tn: "toned self txt start cf" by (simp add: toned_def)
  from mf_inv_start_le [OF inv] have le: "start \<le> idx" .
  show "0 \<le> start" by (rule d(1))
  show "idx' = cons_pos self txt start (Suc cf)"
    using cons_pos_Suc_toned [OF tn] d(2) idx' by simp
  show "idx' \<le> int (length txt)" using lt1 idx' by simp
  show "length (consonants (fnd\<lparr>consonants := consonants fnd @ [txt ! nat idx],
                tone := Some (txt ! nat (idx + 1)),
                tone_owner := Some cf,
                positions := positions fnd @ [idx, idx + 1]\<rparr>)) = Suc cf"
    using d(4) by simp
  have "idx' - 1 = idx + 1" using idx' by simp
  from upto_two_more [OF le this] d(5)
  show "positions (fnd\<lparr>consonants := consonants fnd @ [txt ! nat idx],
                tone := Some (txt ! nat (idx + 1)),
                tone_owner := Some cf,
                positions := positions fnd @ [idx, idx + 1]\<rparr>) = [start..idx' - 1]"
    by simp
  show "cons_pos self txt start i < int (length txt)" if "i < Suc cf" for i
    using mf_inv_elems(1) [OF inv lt c that] .
  show "consonants (fnd\<lparr>consonants := consonants fnd @ [txt ! nat idx],
                tone := Some (txt ! nat (idx + 1)),
                tone_owner := Some cf,
                positions := positions fnd @ [idx, idx + 1]\<rparr>) ! i
          = txt ! nat (cons_pos self txt start i)" if "i < Suc cf" for i
    using mf_inv_elems(2) [OF inv lt c that] by simp
  show "txt ! nat (cons_pos self txt start i) \<in> foundation self" if "i < Suc cf" for i
    using mf_inv_elems(3) [OF inv lt c that] .
  show "case tone_owner (fnd\<lparr>consonants := consonants fnd @ [txt ! nat idx],
                tone := Some (txt ! nat (idx + 1)),
                tone_owner := Some cf,
                positions := positions fnd @ [idx, idx + 1]\<rparr>) of
        None \<Rightarrow> tone (fnd\<lparr>consonants := consonants fnd @ [txt ! nat idx],
                tone := Some (txt ! nat (idx + 1)),
                tone_owner := Some cf,
                positions := positions fnd @ [idx, idx + 1]\<rparr>) = None
               \<and> (\<forall>i<Suc cf. \<not> toned self txt start i)
      | Some k \<Rightarrow> k < Suc cf \<and> toned self txt start k
          \<and> tone (fnd\<lparr>consonants := consonants fnd @ [txt ! nat idx],
                tone := Some (txt ! nat (idx + 1)),
                tone_owner := Some cf,
                positions := positions fnd @ [idx, idx + 1]\<rparr>)
              = Some (txt ! nat (cons_pos self txt start k + 1))
          \<and> (\<forall>i<Suc cf. k < i \<longrightarrow> \<not> toned self txt start i)"
    using tn d(2) by simp
qed

lemma mf_inv_step_plain:
  assumes inv: "mf_inv self txt start cf idx fnd"
    and lt: "idx < int (length txt)" and c: "txt ! nat idx \<in> foundation self"
    and nt: "\<not> (idx + 1 < int (length txt) \<and> txt ! nat (idx + 1) \<in> tone_marks self)"
  shows "mf_inv self txt start (Suc cf) (idx + 1)
           (fnd\<lparr>consonants := consonants fnd @ [txt ! nat idx],
                positions := positions fnd @ [idx]\<rparr>)"
proof (rule mf_invI)
  note d = mf_invD [OF inv]
  from nt d(2) have tn: "\<not> toned self txt start cf" by (simp add: toned_def)
  from mf_inv_start_le [OF inv] have le: "start \<le> idx" .
  show "0 \<le> start" by (rule d(1))
  show "idx + 1 = cons_pos self txt start (Suc cf)"
    using cons_pos_Suc_plain [OF tn] d(2) by simp
  show "idx + 1 \<le> int (length txt)" using lt by simp
  show "length (consonants (fnd\<lparr>consonants := consonants fnd @ [txt ! nat idx],
                positions := positions fnd @ [idx]\<rparr>)) = Suc cf"
    using d(4) by simp
  from upto_one_more [OF le] d(5)
  show "positions (fnd\<lparr>consonants := consonants fnd @ [txt ! nat idx],
                positions := positions fnd @ [idx]\<rparr>) = [start..idx + 1 - 1]"
    by simp
  show "cons_pos self txt start i < int (length txt)" if "i < Suc cf" for i
    using mf_inv_elems(1) [OF inv lt c that] .
  show "consonants (fnd\<lparr>consonants := consonants fnd @ [txt ! nat idx],
                positions := positions fnd @ [idx]\<rparr>) ! i
          = txt ! nat (cons_pos self txt start i)" if "i < Suc cf" for i
    using mf_inv_elems(2) [OF inv lt c that] by simp
  show "txt ! nat (cons_pos self txt start i) \<in> foundation self" if "i < Suc cf" for i
    using mf_inv_elems(3) [OF inv lt c that] .
  show "case tone_owner (fnd\<lparr>consonants := consonants fnd @ [txt ! nat idx],
                positions := positions fnd @ [idx]\<rparr>) of
        None \<Rightarrow> tone (fnd\<lparr>consonants := consonants fnd @ [txt ! nat idx],
                positions := positions fnd @ [idx]\<rparr>) = None
               \<and> (\<forall>i<Suc cf. \<not> toned self txt start i)
      | Some k \<Rightarrow> k < Suc cf \<and> toned self txt start k
          \<and> tone (fnd\<lparr>consonants := consonants fnd @ [txt ! nat idx],
                positions := positions fnd @ [idx]\<rparr>)
              = Some (txt ! nat (cons_pos self txt start k + 1))
          \<and> (\<forall>i<Suc cf. k < i \<longrightarrow> \<not> toned self txt start i)"
  proof (cases "tone_owner fnd")
    case None
    with d(9) d(10) tn show ?thesis by (auto simp: less_Suc_eq)
  next
    case (Some k)
    with d(11) [OF Some] d(12) [OF Some] tn show ?thesis by (auto simp: less_Suc_eq)
  qed
qed

lemma char_at_in: "0 \<le> i \<Longrightarrow> i < int (length txt) \<Longrightarrow> char_at txt i = Inr (txt ! nat i)"
  by (simp add: char_at_def)

lemma mf_loop_exit:
  "\<not> (cf < C \<and> idx < int (length txt)) \<Longrightarrow>
   match_foundation_loop self txt C cf idx fnd = (if cf \<noteq> C then Inr None else Inr (Some fnd))"
  by (subst match_foundation_loop.simps) auto

lemma mf_loop_reject:
  "cf < C \<Longrightarrow> 0 \<le> idx \<Longrightarrow> idx < int (length txt) \<Longrightarrow> txt ! nat idx \<notin> foundation self \<Longrightarrow>
   match_foundation_loop self txt C cf idx fnd = Inr None"
  by (subst match_foundation_loop.simps) (simp add: char_at_in)

lemma mf_loop_tone:
  "cf < C \<Longrightarrow> 0 \<le> idx \<Longrightarrow> idx < int (length txt) \<Longrightarrow> txt ! nat idx \<in> foundation self \<Longrightarrow>
   idx + 1 < int (length txt) \<Longrightarrow> txt ! nat (idx + 1) \<in> tone_marks self \<Longrightarrow>
   match_foundation_loop self txt C cf idx fnd =
   match_foundation_loop self txt C (Suc cf) (idx + 2)
     (fnd\<lparr>consonants := consonants fnd @ [txt ! nat idx],
          tone := Some (txt ! nat (idx + 1)),
          tone_owner := Some cf,
          positions := positions fnd @ [idx, idx + 1]\<rparr>)"
  by (subst match_foundation_loop.simps) (simp add: char_at_in add.commute)

lemma mf_loop_plain:
  "cf < C \<Longrightarrow> 0 \<le> idx \<Longrightarrow> idx < int (length txt) \<Longrightarrow> txt ! nat idx \<in> foundation self \<Longrightarrow>
   \<not> (idx + 1 < int (length txt) \<and> txt ! nat (idx + 1) \<in> tone_marks self) \<Longrightarrow>
   match_foundation_loop self txt C cf idx fnd =
   match_foundation_loop self txt C (Suc cf) (idx + 1)
     (fnd\<lparr>consonants := consonants fnd @ [txt ! nat idx],
          positions := positions fnd @ [idx]\<rparr>)"
  by (subst match_foundation_loop.simps) (auto simp: char_at_in)

lemma mf_loop_no_error:
  "0 \<le> idx \<Longrightarrow> match_foundation_loop self txt C cf idx fnd \<noteq> Inl e"
proof (induction "C - cf" arbitrary: cf idx fnd)
  case 0
  then show ?case by (simp add: mf_loop_exit)
next
  case (Suc n)
  show ?case
  proof (cases "cf < C \<and> idx < int (length txt)")
    case False
    then show ?thesis by (simp add: mf_loop_exit)
  next
    case True
    from Suc.hyps(2) have n: "n = C - Suc cf" by simp
    show ?thesis
    proof (cases "txt ! nat idx \<in> foundation self")
      case False
      with True Suc.prems show ?thesis by (simp add: mf_loop_reject)
    next
      case cin: True
      show ?thesis
      proof (cases "idx + 1 < int (length txt) \<and> txt ! nat (idx + 1) \<in> tone_marks self")
        case True
        with \<open>cf < C \<and> idx < int (length txt)\<close> cin Suc.prems Suc.hyps(1) [OF n, of "idx + 2"]
        show ?thesis by (simp add: mf_loop_tone)
      next
        case False
        with \<open>cf < C \<and> idx < int (length txt)\<close> cin Suc.prems Suc.hyps(1) [OF n, of "idx + 1"]
        show ?thesis by (simp add: mf_loop_plain)
      qed
    qed
  qed
qed

lemma mf_loop_inv:
  "mf_inv self txt start cf idx fnd \<Longrightarrow>
   match_foundation_loop self txt C cf idx fnd = Inr (Some r) \<Longrightarrow>
   mf_inv self txt start C (cons_pos self txt start C) r"
proof (induction "C - cf" arbitrary: cf idx fnd)
  case 0
  then have "\<not> (cf < C \<and> idx < int (length txt))" by simp
  from mf_loop_exit [OF this] "0.prems"(2) have "cf = C" "r = fnd"
    by (auto split: if_splits)
  with "0.prems"(1) mf_invD(2) [OF "0.prems"(1)] show ?case by simp
next
  case (Suc n)
  note inv = Suc.prems(1) and res = Suc.prems(2)
  from mf_invD(1) [OF inv] mf_inv_start_le [OF inv] have idx0: "0 \<le> idx" by simp
  from Suc.hyps(2) have n: "n = C - Suc cf" and cf: "cf < C" by simp_all
  show ?case
  proof (cases "idx < int (length txt)")
    case False
    then have "\<not> (cf < C \<and> idx < int (length txt))" by simp
    from mf_loop_exit [OF this] res cf show ?thesis by simp
  next
    case lt: True
    show ?thesis
    proof (cases "txt ! nat idx \<in> foundation self")
      case False
      with mf_loop_reject [OF cf idx0 lt] res show ?thesis by simp
    next
      case cin: True
      show ?thesis
      proof (cases "idx + 1 < int (length txt) \<and> txt ! nat (idx + 1) \<in> tone_marks self")
        case True
        then have lt1: "idx + 1 < int (length txt)"
          and t: "txt ! nat (idx + 1) \<in> tone_marks self" by simp_all
        from mf_loop_tone [OF cf idx0 lt cin lt1 t] res
        have res': "match_foundation_loop self txt C (Suc cf) (idx + 2)
           (fnd\<lparr>consonants := consonants fnd @ [txt ! nat idx],
                tone := Some (txt ! nat (idx + 1)),
                tone_owner := Some cf,
                positions := positions fnd @ [idx, idx + 1]\<rparr>) = Inr (Some r)" by simp
        from Suc.hyps(1) [OF n mf_inv_step_tone [OF inv lt cin lt1 t refl] res']
        show ?thesis .
      next
        case False
        from mf_loop_plain [OF cf idx0 lt cin False] res
        have res': "match_foundation_loop self txt C (Suc cf) (idx + 1)
           (fnd\<lparr>consonants := consonants fnd @ [txt ! nat idx],
                positions := positions fnd @ [idx]\<rparr>) = Inr (Some r)" by simp
        from Suc.hyps(1) [OF n mf_inv_step_plain [OF inv lt cin False] res']
        show ?thesis .
      qed
    qed
  qed
qed

lemma match_foundation_no_error: "match_foundation self txt start_pos c \<noteq> Inl e"
  by (simp add: match_foundation_def mf_loop_no_error)

lemma match_foundation_inv:
  assumes "match_foundation self txt start_pos c = Inr (Some f)"
  shows "0 \<le> start_pos" and "start_pos < int (length txt)"
    and "mf_inv self txt start_pos c (cons_pos self txt start_pos c) f"
proof -
  from assms show a: "0 \<le> start_pos" and b: "start_pos < int (length txt)"
    by (auto simp: match_foundation_def split: if_splits)
  from assms a b have "match_foundation_loop self txt c 0 start_pos empty_container = Inr (Some f)"
    by (simp add: match_foundation_def)
  from mf_loop_inv [OF mf_inv_init [OF a b] this]
  show "mf_inv self txt start_pos c (cons_pos self txt start_pos c) f" .
qed

lemma cons_pos_lower: "start + int k \<le> cons_pos self txt start k"
  by (induction k) (auto simp: cons_pos.simps(2))

lemma cons_pos_count:
  "cons_pos self txt start k = start + int k + int (length (filter (toned self txt start) [0..<k]))"
  by (induction k) (auto simp: cons_pos_Suc_toned cons_pos_Suc_plain)

lemma match_foundation_positions:
  assumes "match_foundation self txt start_pos c = Inr (Some f)"
  shows "positions f = [start_pos..cons_pos self txt start_pos c - 1]"
    and "cons_pos self txt start_pos c \<le> int (length txt)"
    and "length (consonants f) = c"
  using mf_invD [OF match_foundation_inv(3) [OF assms]] by simp_all

lemma tm_loop_no_error: "try_match_loop self txt c ps idx m \<noteq> Inl e"
proof (induction ps arbitrary: idx m)
  case Nil
  show ?case by simp
next
  case (Cons p ps)
  show ?case
    using Cons.IH
    by (auto simp: match_foundation_no_error char_at_in split: sum.splits option.splits)
qed

lemma try_match_no_error:
  "try_match_pattern_with_foundation self txt start_pos pattern used c \<noteq> Inl e"
  by (simp add: try_match_pattern_with_foundation_def tm_loop_no_error)

lemma last_filter_upt:
  "k < n \<Longrightarrow> P k \<Longrightarrow> (\<And>i. i < n \<Longrightarrow> k < i \<Longrightarrow> \<not> P i) \<Longrightarrow> last (filter P [0..<n]) = k"
proof (induction n)
  case 0
  then show ?case by simp
next
  case (Suc n)
  show ?case
  proof (cases "k = n")
    case True
    with Suc.prems show ?thesis by simp
  next
    case False
    with Suc.prems have kn: "k < n" by simp
    from Suc.prems(3) [of n] kn have np: "\<not> P n" by simp
    have "k \<in> set (filter P [0..<n])" using kn Suc.prems(2) by simp
    then have ne: "filter P [0..<n] \<noteq> []" by (metis empty_iff empty_set)
    from Suc.IH [OF kn Suc.prems(2)] Suc.prems(3) have "last (filter P [0..<n]) = k" by simp
    with np ne show ?thesis by simp
  qed
qed

section \<open>The template matcher, step by step\<close>

lemma sym_x_neq_f: "sym_x \<noteq> sym_f"
  by (simp add: sym_x_def sym_f_def)

lemma upto_join:
  assumes "(i::int) \<le> j" and "j \<le> k"
  shows "[i..j - 1] @ [j..k - 1] = [i..k - 1]"
proof (cases "i = j")
  case True
  then show ?thesis by simp
next
  case False
  with assms have "i \<le> j - 1" and "j - 1 \<le> k - 1" by simp_all
  from upto_split2 [OF this] show ?thesis by simp
qed

lemma match_foundation_cursor:
  assumes ok: "match_foundation self txt idx c = Inr (Some fnd)" and c: "1 \<le> c"
  shows "positions fnd \<noteq> []" and "last (positions fnd) + 1 = cons_pos self txt idx c"
    and "idx < cons_pos self txt idx c"
proof -
  note p = match_foundation_positions [OF ok]
  from cons_pos_lower [of idx c self "txt"] c show gt: "idx < cons_pos self txt idx c" by simp
  then show "positions fnd \<noteq> []" using p(1) by simp
  show "last (positions fnd) + 1 = cons_pos self txt idx c"
    using p(1) gt by (simp add: upto_rec2)
qed

text \<open>
  One iteration of the loop of the template matcher that does not return \<open>None\<close>: where
  the cursor and the match stand after it.
\<close>

lemma tm_loop_step:
  assumes res: "try_match_loop self txt c (p # ps) idx m = Inr (Some m')"
    and c: "p = sym_x \<longrightarrow> 1 \<le> c"
  shows "\<exists>idx1 m1. try_match_loop self txt c ps idx1 m1 = Inr (Some m')
           \<and> 0 \<le> idx \<and> idx < idx1 \<and> idx1 \<le> int (length txt)
           \<and> m_positions m1 = m_positions m @ [idx..idx1 - 1]
           \<and> m_pattern m1 = m_pattern m
           \<and> (if p = sym_x then
                 (\<exists>fnd. m_foundation m1 = Some fnd
                     \<and> match_foundation self txt idx c = Inr (Some fnd))
                 \<and> m_final m1 = m_final m \<and> m_vowel_text m1 = m_vowel_text m
               else if p = sym_f then
                 (\<exists>fnd. m_final m1 = Some fnd
                     \<and> match_foundation self txt idx 1 = Inr (Some fnd))
                 \<and> m_foundation m1 = m_foundation m \<and> m_vowel_text m1 = m_vowel_text m
               else m_foundation m1 = m_foundation m \<and> m_final m1 = m_final m
                 \<and> txt ! nat idx = p \<and> m_vowel_text m1 = m_vowel_text m @ [p])"
proof -
  from res have b: "0 \<le> idx" "idx < int (length txt)"
    by (auto split: if_splits)
  show ?thesis
  proof (cases "p = sym_x")
    case True
    with c have c1: "1 \<le> c" by simp
    from res True b obtain fnd where ok: "match_foundation self txt idx c = Inr (Some fnd)"
      by (auto split: sum.splits option.splits)
    note cur = match_foundation_cursor [OF ok c1]
    note pos = match_foundation_positions [OF ok]
    let ?m1 = "m\<lparr>m_foundation := Some fnd, m_positions := m_positions m @ positions fnd\<rparr>"
    from res True b ok cur
    have "try_match_loop self txt c ps (cons_pos self txt idx c) ?m1 = Inr (Some m')"
      by simp
    with b cur(3) pos ok True show ?thesis
      by (intro exI [of _ "cons_pos self txt idx c"] exI [of _ ?m1]) simp
  next
    case nx: False
    show ?thesis
    proof (cases "p = sym_f")
      case True
      from res True nx b obtain fnd where ok: "match_foundation self txt idx 1 = Inr (Some fnd)"
        by (auto split: sum.splits option.splits)
      note cur = match_foundation_cursor [OF ok order_refl]
      note pos = match_foundation_positions [OF ok]
      let ?m1 = "m\<lparr>m_final := Some fnd, m_positions := m_positions m @ positions fnd\<rparr>"
      from res True nx b ok cur
      have "try_match_loop self txt c ps (cons_pos self txt idx 1) ?m1 = Inr (Some m')"
        by simp
      with b cur(3) pos ok True nx show ?thesis
        by (intro exI [of _ "cons_pos self txt idx 1"] exI [of _ ?m1]) simp
    next
      case nf: False
      let ?m1 = "m\<lparr>m_vowel_text := m_vowel_text m @ [txt ! nat idx],
                    m_positions := m_positions m @ [idx]\<rparr>"
      from res nx nf b have eq: "txt ! nat idx = p"
        by (auto simp: char_at_in split: if_splits)
      from res nx nf b eq
      have "try_match_loop self txt c ps (idx + 1) ?m1 = Inr (Some m')"
        by (simp add: char_at_in)
      with b nx nf eq show ?thesis
        by (intro exI [of _ "idx + 1"] exI [of _ ?m1]) simp
    qed
  qed
qed

lemma tm_loop_positions:
  assumes "try_match_loop self txt c ps idx m = Inr (Some m')"
    and "1 \<le> c \<or> sym_x \<notin> set ps"
  shows "\<exists>e. m_positions m' = m_positions m @ [idx..e - 1] \<and> idx \<le> e
           \<and> (ps = [] \<longrightarrow> e = idx)
           \<and> (ps \<noteq> [] \<longrightarrow> 0 \<le> idx \<and> idx < e \<and> e \<le> int (length txt))"
  using assms
proof (induction ps arbitrary: idx m)
  case Nil
  then show ?case by (intro exI [of _ idx]) simp
next
  case (Cons p ps)
  from Cons.prems(2) have c: "p = sym_x \<longrightarrow> 1 \<le> c" and c': "1 \<le> c \<or> sym_x \<notin> set ps"
    by auto
  from tm_loop_step [OF Cons.prems(1) c] obtain idx1 m1 where
    r: "try_match_loop self txt c ps idx1 m1 = Inr (Some m')"
    and b: "0 \<le> idx" "idx < idx1" "idx1 \<le> int (length txt)"
    and p1: "m_positions m1 = m_positions m @ [idx..idx1 - 1]"
    by blast
  from Cons.IH [OF r c'] obtain e where
    e: "m_positions m' = m_positions m1 @ [idx1..e - 1]" "idx1 \<le> e"
      "ps = [] \<longrightarrow> e = idx1" "ps \<noteq> [] \<longrightarrow> e \<le> int (length txt)"
    by blast
  from b(2) e(2) have "[idx..idx1 - 1] @ [idx1..e - 1] = [idx..e - 1]"
    by (intro upto_join) simp_all
  with e(1) p1 have "m_positions m' = m_positions m @ [idx..e - 1]" by simp
  moreover from e(3,4) b(3) have "e \<le> int (length txt)" by (cases "ps = []") simp_all
  ultimately show ?case using b e(2) by (intro exI [of _ e]) simp
qed


lemma tm_loop_foundation:
  assumes "try_match_loop self txt c ps idx m = Inr (Some m')"
    and "1 \<le> c \<or> sym_x \<notin> set ps"
  shows "if sym_x \<in> set ps
         then \<exists>st fnd. m_foundation m' = Some fnd
                \<and> match_foundation self txt st c = Inr (Some fnd)
         else m_foundation m' = m_foundation m"
  using assms
proof (induction ps arbitrary: idx m)
  case Nil
  then show ?case by simp
next
  case (Cons p ps)
  from Cons.prems(2) have c: "p = sym_x \<longrightarrow> 1 \<le> c" and c': "1 \<le> c \<or> sym_x \<notin> set ps"
    by auto
  from tm_loop_step [OF Cons.prems(1) c] obtain idx1 m1 where
    r: "try_match_loop self txt c ps idx1 m1 = Inr (Some m')"
    and st: "if p = sym_x then
                 (\<exists>fnd. m_foundation m1 = Some fnd
                     \<and> match_foundation self txt idx c = Inr (Some fnd))
                 \<and> m_final m1 = m_final m \<and> m_vowel_text m1 = m_vowel_text m
               else if p = sym_f then
                 (\<exists>fnd. m_final m1 = Some fnd
                     \<and> match_foundation self txt idx 1 = Inr (Some fnd))
                 \<and> m_foundation m1 = m_foundation m \<and> m_vowel_text m1 = m_vowel_text m
               else m_foundation m1 = m_foundation m \<and> m_final m1 = m_final m
                 \<and> txt ! nat idx = p \<and> m_vowel_text m1 = m_vowel_text m @ [p]"
    by blast
  have s: "if p = sym_x then
                 (\<exists>fnd. m_foundation m1 = Some fnd
                     \<and> match_foundation self txt idx c = Inr (Some fnd))
            else m_foundation m1 = m_foundation m"
    using st by (simp split: if_splits)
  note ih = Cons.IH [OF r c']
  show ?case
  proof (cases "sym_x \<in> set ps")
    case True
    with ih show ?thesis by simp
  next
    case False
    with ih have eq: "m_foundation m' = m_foundation m1" by simp
    show ?thesis
    proof (cases "p = sym_x")
      case True
      with s eq show ?thesis by auto
    next
      case nx: False
      with s eq False show ?thesis by auto
    qed
  qed
qed

lemma tm_loop_final:
  assumes "try_match_loop self txt c ps idx m = Inr (Some m')"
    and "1 \<le> c \<or> sym_x \<notin> set ps"
  shows "if sym_f \<in> set ps
         then \<exists>st fnd. m_final m' = Some fnd
                \<and> match_foundation self txt st 1 = Inr (Some fnd)
         else m_final m' = m_final m"
  using assms
proof (induction ps arbitrary: idx m)
  case Nil
  then show ?case by simp
next
  case (Cons p ps)
  from Cons.prems(2) have c: "p = sym_x \<longrightarrow> 1 \<le> c" and c': "1 \<le> c \<or> sym_x \<notin> set ps"
    by auto
  from tm_loop_step [OF Cons.prems(1) c] obtain idx1 m1 where
    r: "try_match_loop self txt c ps idx1 m1 = Inr (Some m')"
    and st: "if p = sym_x then
                 (\<exists>fnd. m_foundation m1 = Some fnd
                     \<and> match_foundation self txt idx c = Inr (Some fnd))
                 \<and> m_final m1 = m_final m \<and> m_vowel_text m1 = m_vowel_text m
               else if p = sym_f then
                 (\<exists>fnd. m_final m1 = Some fnd
                     \<and> match_foundation self txt idx 1 = Inr (Some fnd))
                 \<and> m_foundation m1 = m_foundation m \<and> m_vowel_text m1 = m_vowel_text m
               else m_foundation m1 = m_foundation m \<and> m_final m1 = m_final m
                 \<and> txt ! nat idx = p \<and> m_vowel_text m1 = m_vowel_text m @ [p]"
    by blast
  have s: "if p = sym_f then
                 (\<exists>fnd. m_final m1 = Some fnd
                     \<and> match_foundation self txt idx 1 = Inr (Some fnd))
            else m_final m1 = m_final m"
    using st sym_x_neq_f by (simp split: if_splits)
  note ih = Cons.IH [OF r c']
  show ?case
  proof (cases "sym_f \<in> set ps")
    case True
    with ih show ?thesis by simp
  next
    case False
    with ih have eq: "m_final m' = m_final m1" by simp
    show ?thesis
    proof (cases "p = sym_f")
      case True
      with s eq show ?thesis by auto
    next
      case nx: False
      with s eq False show ?thesis by auto
    qed
  qed
qed


section \<open>The matches of a pattern, without the error channel\<close>

lemma collect_e_map:
  "(\<And>x. x \<in> set xs \<Longrightarrow> f x = Inr (g x)) \<Longrightarrow> collect_e (map f xs) = Inr (concat (map g xs))"
  by (induction xs) simp_all

lemma keep_match_kept:
  "keep_match used (try_match_pattern_with_foundation self txt start_pos pattern used' c)
   = Inr (kept used (try_match_pattern_with_foundation self txt start_pos pattern used' c))"
proof (cases "try_match_pattern_with_foundation self txt start_pos pattern used' c")
  case (Inl e)
  with try_match_no_error show ?thesis by blast
next
  case (Inr r)
  then show ?thesis by (cases r) (simp_all add: keep_match_def kept_def)
qed

lemma find_pattern_matches_eq:
  "find_pattern_matches self txt pattern used = Inr (matches_of self txt pattern used)"
  unfolding find_pattern_matches_def matches_of_def
  by (intro collect_e_map) (simp add: keep_match_kept collect_e_map)

lemma kept_iff:
  "m \<in> set (kept used r) \<longleftrightarrow> r = Inr (Some m) \<and> set (m_positions m) \<inter> used = {}"
  by (auto simp: kept_def list_ex_iff split: sum.splits option.splits if_splits)

lemma matches_of_iff:
  "m \<in> set (matches_of self txt pattern used) \<longleftrightarrow>
   (\<exists>start_pos c. - 5 \<le> start_pos \<and> start_pos < int (length txt)
      \<and> (if sym_x \<in> set pattern then 1 \<le> c \<and> c \<le> min 3 (length txt) else c = 0)
      \<and> try_match_pattern_with_foundation self txt start_pos pattern used c = Inr (Some m)
      \<and> set (m_positions m) \<inter> used = {})"
proof (cases "sym_x \<in> set pattern")
  case True
  then have "m \<in> set (matches_of self txt pattern used) \<longleftrightarrow>
    (\<exists>start_pos\<in>{- 5..int (length txt) - 1}. \<exists>c\<in>{1..<min 3 (length txt) + 1}.
       m \<in> set (kept used (try_match_pattern_with_foundation self txt start_pos pattern used c)))"
    by (simp add: matches_of_def del: upt_Suc)
  also have "\<dots> \<longleftrightarrow>
    (\<exists>start_pos c. - 5 \<le> start_pos \<and> start_pos < int (length txt)
      \<and> (1 \<le> c \<and> c \<le> min 3 (length txt))
      \<and> try_match_pattern_with_foundation self txt start_pos pattern used c = Inr (Some m)
      \<and> set (m_positions m) \<inter> used = {})"
    unfolding kept_iff Bex_def by (intro iff_exI) auto
  finally show ?thesis using True by simp
next
  case False
  then have "m \<in> set (matches_of self txt pattern used) \<longleftrightarrow>
    (\<exists>start_pos\<in>{- 5..int (length txt) - 1}.
       m \<in> set (kept used (try_match_pattern_with_foundation self txt start_pos pattern used 0)))"
    by (simp add: matches_of_def)
  also have "\<dots> \<longleftrightarrow>
    (\<exists>start_pos. - 5 \<le> start_pos \<and> start_pos < int (length txt)
      \<and> try_match_pattern_with_foundation self txt start_pos pattern used 0 = Inr (Some m)
      \<and> set (m_positions m) \<inter> used = {})"
    unfolding kept_iff Bex_def by (intro iff_exI) auto
  finally show ?thesis using False by simp
qed

section \<open>What the search returns\<close>

text \<open>
  An activation of the closure either raises \<open>RecursionError\<close> or returns the readings
  that the same state appends when there is room for every call; and it returns whenever
  the room is more than the number of positions not yet used.
\<close>

lemma collect_e_nil:
  "(\<And>x. x \<in> set xs \<Longrightarrow> f x = Inr []) \<Longrightarrow> collect_e (map f xs) = Inr []"
  using collect_e_map [of xs f "\<lambda>x. []"] by simp

lemma collect_e_cases:
  "(\<And>x. x \<in> set xs \<Longrightarrow> f x = Inl err \<or> f x = Inr (g x)) \<Longrightarrow>
   collect_e (map f xs) = Inl err \<or> collect_e (map f xs) = Inr (concat (map g xs))"
proof (induction xs)
  case Nil
  show ?case by simp
next
  case (Cons x xs)
  from Cons.prems have hd: "f x = Inl err \<or> f x = Inr (g x)" by simp
  from Cons.prems have "collect_e (map f xs) = Inl err
      \<or> collect_e (map f xs) = Inr (concat (map g xs))"
    by (intro Cons.IH) simp
  with hd show ?case by auto
qed

lemma collect_e_cases_nil:
  "(\<And>x. x \<in> set xs \<Longrightarrow> f x = Inl err \<or> f x = Inr []) \<Longrightarrow>
   collect_e (map f xs) = Inl err \<or> collect_e (map f xs) = Inr []"
proof (induction xs)
  case Nil
  show ?case by simp
next
  case (Cons x xs)
  from Cons.prems have hd: "f x = Inl err \<or> f x = Inr []" by simp
  from Cons.prems have "collect_e (map f xs) = Inl err \<or> collect_e (map f xs) = Inr []"
    by (intro Cons.IH) simp
  with hd show ?case by auto
qed

lemma collect_e_returns:
  "(\<And>x. x \<in> set xs \<Longrightarrow> \<exists>ys. f x = Inr ys) \<Longrightarrow> \<exists>rs. collect_e (map f xs) = Inr rs"
proof (induction xs)
  case Nil
  show ?case by simp
next
  case (Cons x xs)
  from Cons.prems obtain ys where ys: "f x = Inr ys" by auto
  from Cons.prems have "\<exists>rs. collect_e (map f xs) = Inr rs"
    by (intro Cons.IH) simp
  then obtain rs where "collect_e (map f xs) = Inr rs" ..
  with ys show ?case by simp
qed

lemma explore_no_room:
  "explore_segmentations 0 self txt pos used cur = Inl RecursionError"
  by (subst explore_segmentations.simps) simp

lemma explore_terminal:
  "0 < room \<Longrightarrow> card used = length txt \<Longrightarrow>
   explore_segmentations room self txt pos used cur
   = (if length cur = 1 then Inr [cur] else Inr [])"
  by (subst explore_segmentations.simps) simp

lemma explore_stuck:
  "0 < room \<Longrightarrow> card used \<noteq> length txt \<Longrightarrow>
   length txt \<le> next_unused (length txt) used pos \<Longrightarrow>
   explore_segmentations room self txt pos used cur = Inr []"
  by (subst explore_segmentations.simps) simp

lemma explore_unfold:
  "card used \<noteq> length txt \<Longrightarrow> next_unused (length txt) used pos < length txt \<Longrightarrow>
   explore_segmentations (Suc room) self txt pos used cur =
   collect_e (map (\<lambda>pattern.
       collect_e (map (\<lambda>m.
           if int (next_unused (length txt) used pos) \<in> set (m_positions m) then
             explore_segmentations room self txt 0 (used \<union> set (m_positions m))
               (cur @ [syllable_of m])
           else Inr [])
         (matches_of self txt pattern used)))
     (vowel_patterns self))"
  by (subst explore_segmentations.simps) (simp add: find_pattern_matches_eq cong: if_cong)

lemma explore_deep:
  "2 \<le> length cur \<Longrightarrow>
   explore_segmentations room self txt pos used cur = Inl RecursionError
   \<or> explore_segmentations room self txt pos used cur = Inr []"
proof (induction room arbitrary: pos used cur)
  case 0
  show ?case by (simp add: explore_no_room)
next
  case (Suc room)
  show ?case
  proof (cases "card used = length txt")
    case True
    with Suc.prems show ?thesis by (simp add: explore_terminal)
  next
    case nc: False
    show ?thesis
    proof (cases "length txt \<le> next_unused (length txt) used pos")
      case True
      with nc show ?thesis by (simp add: explore_stuck)
    next
      case False
      then have lt: "next_unused (length txt) used pos < length txt" by simp
      have inner: "explore_segmentations room self txt 0 (used \<union> set (m_positions m))
                     (cur @ [syllable_of m]) = Inl RecursionError
                   \<or> explore_segmentations room self txt 0 (used \<union> set (m_positions m))
                     (cur @ [syllable_of m]) = Inr []" for m
        using Suc.prems by (intro Suc.IH) simp
      show ?thesis
        unfolding explore_unfold [OF nc lt]
        by (intro collect_e_cases_nil) (simp add: inner)
    qed
  qed
qed

lemma explore_one:
  assumes "length cur = 1"
  shows "explore_segmentations room self txt pos used cur = Inl RecursionError
         \<or> explore_segmentations room self txt pos used cur
            = Inr (if card used = length txt then [cur] else [])"
proof (cases room)
  case 0
  then show ?thesis by (simp add: explore_no_room)
next
  case (Suc r)
  show ?thesis
  proof (cases "card used = length txt")
    case True
    with assms Suc show ?thesis by (simp add: explore_terminal)
  next
    case nc: False
    show ?thesis
    proof (cases "length txt \<le> next_unused (length txt) used pos")
      case True
      with nc Suc show ?thesis by (simp add: explore_stuck)
    next
      case False
      then have lt: "next_unused (length txt) used pos < length txt" by simp
      have inner: "explore_segmentations r self txt 0 (used \<union> set (m_positions m))
                     (cur @ [syllable_of m]) = Inl RecursionError
                   \<or> explore_segmentations r self txt 0 (used \<union> set (m_positions m))
                     (cur @ [syllable_of m]) = Inr []" for m
        using assms by (intro explore_deep) simp
      have "explore_segmentations (Suc r) self txt pos used cur = Inl RecursionError
          \<or> explore_segmentations (Suc r) self txt pos used cur = Inr []"
        unfolding explore_unfold [OF nc lt]
        by (intro collect_e_cases_nil) (simp add: inner)
      with nc Suc show ?thesis by simp
    qed
  qed
qed

lemma next_unused_empty: "next_unused n {} 0 = 0"
  by (subst next_unused.simps) simp

lemma explore_top:
  assumes "txt \<noteq> []"
  shows "explore_segmentations room self txt 0 {} [] = Inl RecursionError
         \<or> explore_segmentations room self txt 0 {} [] = Inr (raw_readings self txt)"
proof (cases room)
  case 0
  then show ?thesis by (simp add: explore_no_room)
next
  case (Suc r)
  from assms have nc: "card ({}::int set) \<noteq> length txt" by simp
  from assms have lt: "next_unused (length txt) {} 0 < length txt"
    by (simp add: next_unused_empty)
  have one: "explore_segmentations r self txt 0 (set (m_positions m)) [syllable_of m]
               = Inl RecursionError
             \<or> explore_segmentations r self txt 0 (set (m_positions m)) [syllable_of m]
               = Inr (if card (set (m_positions m)) = length txt then [[syllable_of m]] else [])"
    for m
    by (intro explore_one) simp
  have inner: "collect_e (map (\<lambda>m.
           if int (next_unused (length txt) {} 0) \<in> set (m_positions m) then
             explore_segmentations r self txt 0 ({} \<union> set (m_positions m))
               ([] @ [syllable_of m])
           else Inr [])
         (matches_of self txt pattern {})) = Inl RecursionError
       \<or> collect_e (map (\<lambda>m.
           if int (next_unused (length txt) {} 0) \<in> set (m_positions m) then
             explore_segmentations r self txt 0 ({} \<union> set (m_positions m))
               ([] @ [syllable_of m])
           else Inr [])
         (matches_of self txt pattern {}))
         = Inr (concat (map (\<lambda>m.
             if 0 \<in> set (m_positions m) \<and> card (set (m_positions m)) = length txt
             then [[syllable_of m]] else [])
           (matches_of self txt pattern {})))" for pattern
  proof (intro collect_e_cases)
    fix m
    show "(if int (next_unused (length txt) {} 0) \<in> set (m_positions m) then
             explore_segmentations r self txt 0 ({} \<union> set (m_positions m))
               ([] @ [syllable_of m])
           else Inr []) = Inl RecursionError
        \<or> (if int (next_unused (length txt) {} 0) \<in> set (m_positions m) then
             explore_segmentations r self txt 0 ({} \<union> set (m_positions m))
               ([] @ [syllable_of m])
           else Inr [])
          = Inr (if 0 \<in> set (m_positions m) \<and> card (set (m_positions m)) = length txt
             then [[syllable_of m]] else [])"
      using one [of m] by (simp add: next_unused_empty)
  qed
  show ?thesis
    unfolding Suc explore_unfold [OF nc lt] raw_readings_def
    by (rule collect_e_cases) (rule inner)
qed

lemma explore_returns:
  "card ({0..<int (length txt)} - used) < room \<Longrightarrow>
   \<exists>rs. explore_segmentations room self txt pos used cur = Inr rs"
proof (induction room arbitrary: pos used cur)
  case 0
  then show ?case by simp
next
  case (Suc room)
  show ?case
  proof (cases "card used = length txt")
    case True
    then show ?thesis by (simp add: explore_terminal)
  next
    case nc: False
    show ?thesis
    proof (cases "length txt \<le> next_unused (length txt) used pos")
      case True
      with nc show ?thesis by (simp add: explore_stuck)
    next
      case False
      then have lt: "next_unused (length txt) used pos < length txt" by simp
      have inner: "\<exists>rs. explore_segmentations room self txt 0 (used \<union> set (m_positions m))
                     (cur @ [syllable_of m]) = Inr rs"
        if pm: "int (next_unused (length txt) used pos) \<in> set (m_positions m)" for m
      proof (rule Suc.IH)
        from lt next_unused_free [OF lt] pm
        have "card ({0..<int (length txt)} - (used \<union> set (m_positions m)))
              < card ({0..<int (length txt)} - used)"
          by (rule uncovered_decreases)
        with Suc.prems
        show "card ({0..<int (length txt)} - (used \<union> set (m_positions m))) < room" by simp
      qed
      show ?thesis
        unfolding explore_unfold [OF nc lt]
        by (intro collect_e_returns) (simp add: inner)
    qed
  qed
qed

lemma explore_top_room:
  assumes "txt \<noteq> []" and "length txt < room"
  shows "explore_segmentations room self txt 0 {} [] = Inr (raw_readings self txt)"
proof -
  from assms(2) have "card ({0..<int (length txt)} - {}) < room" by simp
  from explore_returns [OF this]
  obtain rs where "explore_segmentations room self txt 0 {} [] = Inr rs" by blast
  with explore_top [OF assms(1), of room self] show ?thesis by simp
qed

section \<open>Tone retention in a group of consonants\<close>

text \<open>
  C6. Whenever \<open>match_foundation\<close> succeeds on a group in which some consonants (two or
  more, or just one) are each immediately followed by a tone mark, the container records
  the tone after the last such consonant, with that consonant as the tone owner, and every
  tone mark met has consumed one position: the position list has as many entries as there
  are consonants and toned consonants together.
\<close>

theorem tone_retention:
  assumes ok: "match_foundation self txt start width = Inr (Some f)"
    and ne: "filter (toned self txt start) [0..<width] \<noteq> []"
  shows "tone_owner f = Some (last (filter (toned self txt start) [0..<width]))
    \<and> tone f = Some (txt ! nat (cons_pos self txt start
                 (last (filter (toned self txt start) [0..<width])) + 1))
    \<and> consonants f ! last (filter (toned self txt start) [0..<width])
        = txt ! nat (cons_pos self txt start (last (filter (toned self txt start) [0..<width])))
    \<and> length (positions f) = width + length (filter (toned self txt start) [0..<width])"
proof -
  note inv = match_foundation_inv(3) [OF ok]
  note d = mf_invD [OF inv]
  from ne obtain j where j: "j < width" "toned self txt start j"
    by (metis (mono_tags, lifting) filter_False atLeastLessThan_iff set_upt)
  have "tone_owner f \<noteq> None"
  proof
    assume "tone_owner f = None"
    from d(10) [OF this j(1)] j(2) show False by simp
  qed
  then obtain k where k: "tone_owner f = Some k" by auto
  from d(11) [OF k] have kw: "k < width" and kt: "toned self txt start k"
    and tk: "tone f = Some (txt ! nat (cons_pos self txt start k + 1))" by simp_all
  have "last (filter (toned self txt start) [0..<width]) = k"
    using kw kt d(12) [OF k] by (rule last_filter_upt)
  moreover have "length (positions f) = width + length (filter (toned self txt start) [0..<width])"
    using d(5) cons_pos_count [of _ _ _ width] by simp
  ultimately show ?thesis using k tk d(7) [OF kw] by simp
qed

theorem tone_retention_witness:
  "match_foundation (init {3618} []) [3618, 3656, 3618, 3657] 0 2
     = Inr (Some \<lparr>consonants = [3618, 3618], tone = Some 3657, tone_owner = Some 1,
                  positions = [0, 1, 2, 3]\<rparr>)
   \<and> filter (toned (init {3618} []) [3618, 3656, 3618, 3657] 0) [0..<2] = [0, 1]
   \<and> tone_owner \<lparr>consonants = [3618, 3618], tone = Some 3657, tone_owner = Some 1,
                  positions = [0, 1, 2, 3]\<rparr> = Some 1"
proof -
  have m: "match_foundation (init {3618} []) [3618, 3656, 3618, 3657] 0 2
     = Inr (Some \<lparr>consonants = [3618, 3618], tone = Some 3657, tone_owner = Some 1,
                  positions = [0, 1, 2, 3]\<rparr>)"
    by (simp add: match_foundation_def mf_loop_tone mf_loop_plain mf_loop_exit init_def
          thai_tone_marks_def empty_container_def)
  have "[0..<2] = [0, Suc 0]"
    by (simp add: numeral_2_eq_2 upt_rec)
  then have t: "filter (toned (init {3618} []) [3618, 3656, 3618, 3657] 0) [0..<2] = [0, 1]"
    by (simp add: toned_def cons_pos.simps(2) init_def thai_tone_marks_def)
  then have ne: "filter (toned (init {3618} []) [3618, 3656, 3618, 3657] 0) [0..<2] \<noteq> []"
    by simp
  from tone_retention [OF m ne] m t show ?thesis by simp
qed

section \<open>Worked examples\<close>

text \<open>
  Searches evaluated, with room for 1000 nested activations where the room matters:
  \<open>elw\<close> (three readings, ambiguous), \<open>aya\<close> with a tone mark (one reading, with the
  tone on the second consonant), a lone consonant (no reading), \<open>kaka\<close> (two syllables,
  no reading), and \<open>ka\<close> with a catalog that lists its template twice.
\<close>

lemmas eval_rules =
  try_match_pattern_with_foundation_def match_foundation_def mf_loop_tone mf_loop_plain
  mf_loop_exit mf_loop_reject char_at_def kept_def sym_x_def sym_f_def syllable_of_def
  init_def thai_tone_marks_def empty_container_def empty_match_def

lemma starts1: "[- 5..int (length [a::nat]) - 1] = [- 5, - 4, - 3, - 2, - 1, 0]"
  by (simp add: upto_rec1)


lemma starts3: "[- 5..int (length [a, b, c::nat]) - 1] = [- 5, - 4, - 3, - 2, - 1, 0, 1, 2]"
  by (simp add: upto_rec1)

lemma starts4:
  "[- 5..int (length [a, b, c, d::nat]) - 1] = [- 5, - 4, - 3, - 2, - 1, 0, 1, 2, 3]"
  by (simp add: upto_rec1)

lemma clusters1: "[1..<min 3 (length [a::nat]) + 1] = [1]"
  by (simp add: upt_rec)


lemma clusters3: "[1..<min 3 (length [a, b, c::nat]) + 1] = [1, 2, 3]"
  by (simp add: upt_rec numeral_2_eq_2 numeral_3_eq_3)

lemma clusters4: "[1..<min 3 (length [a, b, c, d::nat]) + 1] = [1, 2, 3]"
  by (simp add: upt_rec numeral_2_eq_2 numeral_3_eq_3)

lemma elw_raw:
  "raw_readings elw_analyzer [3648, 3621, 3623]
   = [syllables elw_reading_1, syllables elw_reading_2, syllables elw_reading_3]"
proof -
  have p: "vowel_patterns elw_analyzer = [[3648, 120, 3623], [3648, 120, 102], [3648, 120]]"
    by (simp add: elw_analyzer_def init_def)
  show ?thesis
    unfolding raw_readings_def p matches_of_def starts3 clusters3
    by (simp add: eval_rules elw_analyzer_def elw_reading_1_def elw_reading_2_def
          elw_reading_3_def)
qed

lemma elw_result:
  "findThaiGraphemeOrderDomain 1000 elw_analyzer [3648, 3621, 3623]
   = Inr \<lparr>r_text = [3648, 3621, 3623],
          readings = [elw_reading_1, elw_reading_2, elw_reading_3],
          is_ambiguous = True, unmatched = []\<rparr>"
  by (simp add: findThaiGraphemeOrderDomain_def explore_top_room elw_raw build_reading_def
        syllable_tokens_def render_foundation_def elw_reading_1_def elw_reading_2_def
        elw_reading_3_def)

lemma aya_raw:
  "raw_readings aya_analyzer [3629, 3618, 3656, 3634] = [syllables aya_reading]"
proof -
  have p: "vowel_patterns aya_analyzer = [[120, 3634]]"
    by (simp add: aya_analyzer_def init_def)
  show ?thesis
    unfolding raw_readings_def p matches_of_def starts4 clusters4
    by (simp add: eval_rules aya_analyzer_def aya_reading_def)
qed

lemma aya_result:
  "findThaiGraphemeOrderDomain 1000 aya_analyzer [3629, 3618, 3656, 3634]
   = Inr \<lparr>r_text = [3629, 3618, 3656, 3634], readings = [aya_reading],
          is_ambiguous = False, unmatched = []\<rparr>"
  by (simp add: findThaiGraphemeOrderDomain_def explore_top_room aya_raw build_reading_def
        syllable_tokens_def render_foundation_def aya_reading_def enumerate_eq_zip upt_rec)

lemma lone_raw: "raw_readings (init {3618} [[120, 3634]]) [3618] = []"
proof -
  have p: "vowel_patterns (init {3618} [[120, 3634]]) = [[120, 3634]]"
    by (simp add: init_def)
  show ?thesis
    unfolding raw_readings_def p matches_of_def starts1 clusters1
    by (simp add: eval_rules)
qed

lemma kaka_matches:
  "matches_of kaka_analyzer [3585, 3634, 3585, 3634] [120, 3634] {} = [ka_first, ka_second]"
  unfolding matches_of_def starts4 clusters4
  by (simp add: eval_rules kaka_analyzer_def ka_first_def ka_second_def)

lemma kaka_raw: "raw_readings kaka_analyzer [3585, 3634, 3585, 3634] = []"
proof -
  have p: "vowel_patterns kaka_analyzer = [[120, 3634]]"
    by (simp add: kaka_analyzer_def init_def)
  show ?thesis
    unfolding raw_readings_def p
    by (simp add: kaka_matches ka_first_def ka_second_def)
qed


section \<open>The result of deduplication\<close>

lemma unique_readings_loop_set:
  "set (unique_readings_loop rs seen) = build_reading ` (set rs - seen)"
  by (induction rs arbitrary: seen) auto

lemma syllables_build_reading: "syllables (build_reading r) = r"
  by (simp add: build_reading_def)



lemma search_result:
  "findThaiGraphemeOrderDomain room self txt = Inl RecursionError
   \<or> findThaiGraphemeOrderDomain room self txt =
     Inr \<lparr>r_text = txt,
          readings = (if txt = [] then [] else unique_readings_loop (raw_readings self txt) {}),
          is_ambiguous =
            (if txt = [] then False
             else length (unique_readings_loop (raw_readings self txt) {}) > 1),
          unmatched = []\<rparr>"
proof (cases "txt = []")
  case True
  then show ?thesis by (simp add: findThaiGraphemeOrderDomain_def)
next
  case False
  with explore_top [OF False, of room self] show ?thesis
    by (auto simp: findThaiGraphemeOrderDomain_def)
qed

lemma search_returns:
  assumes "findThaiGraphemeOrderDomain room self txt = Inr res"
  shows "res =
     \<lparr>r_text = txt,
      readings = (if txt = [] then [] else unique_readings_loop (raw_readings self txt) {}),
      is_ambiguous =
        (if txt = [] then False
         else length (unique_readings_loop (raw_readings self txt) {}) > 1),
      unmatched = []\<rparr>"
  using search_result [of room self "txt"] assms by simp

lemma search_result_room:
  "length txt < room \<Longrightarrow>
   findThaiGraphemeOrderDomain room self txt =
     Inr \<lparr>r_text = txt,
          readings = (if txt = [] then [] else unique_readings_loop (raw_readings self txt) {}),
          is_ambiguous =
            (if txt = [] then False
             else length (unique_readings_loop (raw_readings self txt) {}) > 1),
          unmatched = []\<rparr>"
  by (simp add: findThaiGraphemeOrderDomain_def explore_top_room)

lemma readings_of_result:
  assumes "findThaiGraphemeOrderDomain room self txt = Inr res"
  shows "readings res
      = (if txt = [] then [] else unique_readings_loop (raw_readings self txt) {})"
  by (subst search_returns [OF assms]) simp

lemma readings_raw:
  assumes "findThaiGraphemeOrderDomain room self txt = Inr res" and "r \<in> set (readings res)"
  shows "txt \<noteq> []" and "syllables r \<in> set (raw_readings self txt)"
    and "r = build_reading (syllables r)"
proof -
  note res = readings_of_result [OF assms(1)]
  with assms(2) show ne: "txt \<noteq> []" by (auto split: if_splits)
  with res assms(2) have "r \<in> build_reading ` set (raw_readings self txt)"
    by (simp add: unique_readings_loop_set)
  then show "syllables r \<in> set (raw_readings self txt)" and "r = build_reading (syllables r)"
    by (auto simp: syllables_build_reading)
qed

section \<open>The unmatched field\<close>

text \<open>
  C10. Whenever the search returns a result, for any analyzer, any input string and any
  room, the \<open>unmatched\<close> field of the result is the empty list, whether or not there are
  readings: both return statements set it to \<open>[]\<close>.
\<close>

theorem unmatched_always_empty:
  "findThaiGraphemeOrderDomain room self txt = Inr res \<Longrightarrow> unmatched res = []"
  by (auto simp: findThaiGraphemeOrderDomain_def split: if_splits sum.splits)

theorem unmatched_always_empty_witness:
  "findThaiGraphemeOrderDomain 1000 (init {3618} [[120, 3634]]) [3618]
     = Inr \<lparr>r_text = [3618], readings = [], is_ambiguous = False, unmatched = []\<rparr>
   \<and> unmatched \<lparr>r_text = [3618], readings = [], is_ambiguous = False, unmatched = []\<rparr>
       = ([]::uchar list)"
proof -
  have r: "findThaiGraphemeOrderDomain 1000 (init {3618} [[120, 3634]]) [3618]
     = Inr \<lparr>r_text = [3618], readings = [], is_ambiguous = False, unmatched = []\<rparr>"
    by (simp add: search_result_room lone_raw)
  from unmatched_always_empty [OF r] r show ?thesis by simp
qed

section \<open>Only readings of one syllable are accepted\<close>

text \<open>
  C3. Every reading of the result has exactly one syllable; and a state of the search
  whose used set is the set of all positions of the text, with a partial list of any
  length other than one, appends no reading: the activation returns without appending
  (or, entered with no room left, raises before it looks at the state).
\<close>

theorem single_syllable_policy:
  "(findThaiGraphemeOrderDomain room self txt = Inr res \<longrightarrow>
      (\<forall>r\<in>set (readings res). length (syllables r) = 1))
   \<and> (used = {0..<int (length txt)} \<and> length cur \<noteq> 1 \<longrightarrow>
        explore_segmentations room self txt pos used cur
        = (if room = 0 then Inl RecursionError else Inr []))"
proof (intro conjI impI ballI)
  fix r
  assume "findThaiGraphemeOrderDomain room self txt = Inr res" and "r \<in> set (readings res)"
  from readings_raw(2) [OF this] show "length (syllables r) = 1"
    by (auto simp: raw_readings_def split: if_splits)
next
  assume "used = {0..<int (length txt)} \<and> length cur \<noteq> 1"
  then show "explore_segmentations room self txt pos used cur
        = (if room = 0 then Inl RecursionError else Inr [])"
    by (simp add: explore_terminal explore_no_room)
qed

theorem single_syllable_policy_witness:
  "findThaiGraphemeOrderDomain 1000 elw_analyzer [3648, 3621, 3623]
     = Inr \<lparr>r_text = [3648, 3621, 3623],
            readings = [elw_reading_1, elw_reading_2, elw_reading_3],
            is_ambiguous = True, unmatched = []\<rparr>
   \<and> length (syllables elw_reading_1) = 1 \<and> length (syllables elw_reading_2) = 1
   \<and> length (syllables elw_reading_3) = 1
   \<and> explore_segmentations 1000 elw_analyzer [3648, 3621, 3623] 0 {0..<3}
        (syllables elw_reading_1 @ syllables elw_reading_2) = Inr []"
proof -
  have l: "length (syllables elw_reading_1 @ syllables elw_reading_2) \<noteq> 1"
    by (simp add: elw_reading_1_def elw_reading_2_def)
  from single_syllable_policy [of 1000 elw_analyzer "[3648, 3621, 3623]" _ "{0..<3}"
      "syllables elw_reading_1 @ syllables elw_reading_2" 0] elw_result l
  show ?thesis by simp
qed

section \<open>Bounds of the template matcher\<close>




section \<open>Termination of the search\<close>



section \<open>The match behind a raw reading\<close>


lemma try_match_span:
  assumes t: "try_match_pattern_with_foundation self txt start_pos pattern used c = Inr (Some m)"
    and c: "1 \<le> c \<or> sym_x \<notin> set pattern"
  shows "\<exists>e. m_positions m = [start_pos..e - 1]
           \<and> (pattern = [] \<longrightarrow> e = start_pos)
           \<and> (pattern \<noteq> [] \<longrightarrow> 0 \<le> start_pos \<and> start_pos < e \<and> e \<le> int (length txt))"
  using tm_loop_positions [OF t [unfolded try_match_pattern_with_foundation_def] c]
  by (auto simp: empty_match_def)

lemma covering_span:
  assumes t: "try_match_pattern_with_foundation self txt start_pos pattern used c = Inr (Some m)"
    and c: "1 \<le> c \<or> sym_x \<notin> set pattern"
    and z: "0 \<in> set (m_positions m)" and n: "card (set (m_positions m)) = length txt"
  shows "start_pos = 0" and "m_positions m = [0..int (length txt) - 1]" and "pattern \<noteq> []"
proof -
  from try_match_span [OF t c] obtain e where e: "m_positions m = [start_pos..e - 1]"
    "pattern = [] \<longrightarrow> e = start_pos"
    "pattern \<noteq> [] \<longrightarrow> 0 \<le> start_pos \<and> start_pos < e \<and> e \<le> int (length txt)"
    by blast
  from z e show ne: "pattern \<noteq> []" by auto
  with z e show s: "start_pos = 0" by auto
  have "card (set [0..e - 1]) = length [0..e - 1]"
    by (rule distinct_card) simp
  with n e(1) s have "length txt = nat e" by simp
  with e(1,3) ne s show "m_positions m = [0..int (length txt) - 1]" by simp
qed

lemma raw_readings_match:
  assumes "r \<in> set (raw_readings self txt)"
  shows "\<exists>pattern c m. pattern \<in> set (vowel_patterns self)
      \<and> (if sym_x \<in> set pattern then 1 \<le> c \<and> c \<le> min 3 (length txt) else c = 0)
      \<and> try_match_pattern_with_foundation self txt 0 pattern {} c = Inr (Some m)
      \<and> r = [syllable_of m]
      \<and> m_positions m = [0..int (length txt) - 1]"
proof -
  from assms obtain pattern m where p: "pattern \<in> set (vowel_patterns self)"
    and m: "m \<in> set (matches_of self txt pattern {})"
    and z: "0 \<in> set (m_positions m)" and n: "card (set (m_positions m)) = length txt"
    and r: "r = [syllable_of m]"
    by (auto simp: raw_readings_def split: if_splits)
  from m obtain start_pos c where
    c: "if sym_x \<in> set pattern then 1 \<le> c \<and> c \<le> min 3 (length txt) else c = 0"
    and t: "try_match_pattern_with_foundation self txt start_pos pattern {} c = Inr (Some m)"
    unfolding matches_of_iff by blast
  from c have c': "1 \<le> c \<or> sym_x \<notin> set pattern" by (auto split: if_splits)
  note cs = covering_span [OF t c' z n]
  from p c t r cs show ?thesis by blast
qed

section \<open>A text of many syllables\<close>

text \<open>
  The search of \<open>n\<close> syllables \<open>ka\<close> with the one template of \<open>kaka_analyzer\<close>
  accepts the syllables one after the other, each in a deeper activation: it raises
  \<open>RecursionError\<close> when the room is not more than \<open>n\<close> activations. With two
  syllables or more, no match covers the text, and the search has no reading to append.
\<close>

lemma ka_text_Suc: "ka_text (Suc n) = 3585 # 3634 # ka_text n"
  by (simp add: ka_text_def)

lemma length_ka_text: "length (ka_text n) = 2 * n"
  by (induction n) (simp_all add: ka_text_Suc, simp add: ka_text_def)

lemma ka_text_nth:
  "k < n \<Longrightarrow> ka_text n ! (2 * k) = 3585 \<and> ka_text n ! Suc (2 * k) = 3634"
proof (induction n arbitrary: k)
  case 0
  then show ?case by simp
next
  case (Suc n)
  show ?case
  proof (cases k)
    case 0
    then show ?thesis by (simp add: ka_text_Suc)
  next
    case (Suc j)
    with Suc.prems have "j < n" by simp
    from Suc.IH [OF this] Suc show ?thesis by (simp add: ka_text_Suc)
  qed
qed

lemma ka_foundation:
  assumes "k < n"
  shows "match_foundation kaka_analyzer (ka_text n) (int (2 * k)) 1
         = Inr (Some \<lparr>consonants = [3585], tone = None, tone_owner = None,
                       positions = [int (2 * k)]\<rparr>)"
proof -
  let ?T = "ka_text n" and ?i = "int (2 * k)"
  from assms have b: "0 \<le> ?i" "?i < int (length ?T)" "?i + 1 < int (length ?T)"
    by (simp_all add: length_ka_text)
  have n0: "nat ?i = 2 * k" by simp
  have n1: "nat (?i + 1) = Suc (2 * k)" by simp
  from ka_text_nth [OF assms] have c0: "?T ! nat ?i = 3585" and c1: "?T ! nat (?i + 1) = 3634"
    unfolding n0 n1 by simp_all
  have f: "?T ! nat ?i \<in> foundation kaka_analyzer"
    unfolding c0 by (simp add: kaka_analyzer_def init_def)
  have t: "\<not> (?i + 1 < int (length ?T) \<and> ?T ! nat (?i + 1) \<in> tone_marks kaka_analyzer)"
    unfolding c1 by (simp add: kaka_analyzer_def init_def thai_tone_marks_def)
  have "match_foundation kaka_analyzer ?T ?i 1
        = match_foundation_loop kaka_analyzer ?T 1 0 ?i empty_container"
    using b by (simp add: match_foundation_def)
  also have "\<dots> = match_foundation_loop kaka_analyzer ?T 1 (Suc 0) (?i + 1)
       (empty_container\<lparr>consonants := consonants empty_container @ [?T ! nat ?i],
          positions := positions empty_container @ [?i]\<rparr>)"
    by (rule mf_loop_plain [OF _ b(1) b(2) f t]) simp
  also have "\<dots> = Inr (Some (empty_container\<lparr>consonants := consonants empty_container @ [?T ! nat ?i],
          positions := positions empty_container @ [?i]\<rparr>))"
    by (subst mf_loop_exit) simp_all
  finally show ?thesis using c0 by (simp add: empty_container_def)
qed

lemma ka_try_match:
  assumes "k < n"
  shows "try_match_pattern_with_foundation kaka_analyzer (ka_text n) (int (2 * k))
           [120, 3634] used 1 = Inr (Some (ka_match k))"
proof -
  let ?T = "ka_text n" and ?i = "int (2 * k)"
  from assms have b: "0 \<le> ?i" "?i < int (length ?T)" "?i + 1 < int (length ?T)"
    by (simp_all add: length_ka_text)
  have n1: "nat (?i + 1) = Suc (2 * k)" by simp
  from ka_text_nth [OF assms] have c1: "?T ! nat (?i + 1) = 3634"
    unfolding n1 by simp
  show ?thesis
    using b c1 ka_foundation [OF assms]
    by (simp add: try_match_pattern_with_foundation_def empty_match_def sym_x_def sym_f_def
          char_at_def ka_match_def)
qed

lemma ka_try_match_wide:
  assumes "0 < n" and "c = 2 \<or> c = 3"
  shows "try_match_pattern_with_foundation kaka_analyzer (ka_text n) 0 [120, 3634] used c
         = Inr None"
proof -
  let ?T = "ka_text n"
  from assms have b: "(0::int) < int (length ?T)" "(0::int) + 1 < int (length ?T)"
    by (simp_all add: length_ka_text)
  from ka_text_nth [OF assms(1)] have c0: "?T ! 0 = 3585" and c1: "?T ! Suc 0 = 3634"
    by simp_all
  have f: "?T ! nat 0 \<in> foundation kaka_analyzer"
    using c0 by (simp add: kaka_analyzer_def init_def)
  have t: "\<not> ((0::int) + 1 < int (length ?T) \<and> ?T ! nat (0 + 1) \<in> tone_marks kaka_analyzer)"
    using c1 by (simp add: kaka_analyzer_def init_def thai_tone_marks_def)
  have g: "?T ! nat (0 + 1) \<notin> foundation kaka_analyzer"
    using c1 by (simp add: kaka_analyzer_def init_def)
  from assms(2) have c: "0 < c" "Suc 0 < c" by auto
  have "match_foundation kaka_analyzer ?T 0 c
        = match_foundation_loop kaka_analyzer ?T c 0 0 empty_container"
    using b by (simp add: match_foundation_def)
  also have "\<dots> = match_foundation_loop kaka_analyzer ?T c (Suc 0) (0 + 1)
       (empty_container\<lparr>consonants := consonants empty_container @ [?T ! nat 0],
          positions := positions empty_container @ [0]\<rparr>)"
    by (rule mf_loop_plain [OF c(1) _ b(1) f t]) simp
  also have "\<dots> = Inr None"
    by (rule mf_loop_reject [OF c(2) _ b(2) g]) simp
  finally have "match_foundation kaka_analyzer ?T 0 c = Inr None" .
  with b show ?thesis
    by (simp add: try_match_pattern_with_foundation_def sym_x_def)
qed

lemma ka_raw:
  assumes "2 \<le> n"
  shows "raw_readings kaka_analyzer (ka_text n) = []"
proof (rule ccontr)
  assume "raw_readings kaka_analyzer (ka_text n) \<noteq> []"
  then obtain r where "r \<in> set (raw_readings kaka_analyzer (ka_text n))"
    by (cases "raw_readings kaka_analyzer (ka_text n)") auto
  from raw_readings_match [OF this] obtain pattern c m where
    p: "pattern \<in> set (vowel_patterns kaka_analyzer)"
    and c: "if sym_x \<in> set pattern then 1 \<le> c \<and> c \<le> min 3 (length (ka_text n)) else c = 0"
    and t: "try_match_pattern_with_foundation kaka_analyzer (ka_text n) 0 pattern {} c
            = Inr (Some m)"
    and ps: "m_positions m = [0..int (length (ka_text n)) - 1]"
    by blast
  from p have pe: "pattern = [120, 3634]" by (simp add: kaka_analyzer_def init_def)
  with c have "c = 1 \<or> c = 2 \<or> c = 3" by (auto simp: sym_x_def)
  then show False
  proof
    assume "c = 1"
    with t pe ka_try_match [of 0 n "{}"] assms have "m = ka_match 0" by simp
    then have "length (m_positions m) = 2" by (simp add: ka_match_def)
    with ps assms show False by (simp add: length_ka_text)
  next
    assume "c = 2 \<or> c = 3"
    from ka_try_match_wide [OF _ this, of n "{}"] assms t pe show False by simp
  qed
qed

lemma next_unused_prefix:
  "i \<le> j \<Longrightarrow> j < N \<Longrightarrow> next_unused N {0..<int j} i = j"
proof (induction "j - i" arbitrary: i)
  case 0
  then have "i = j" by simp
  then show ?case by (subst next_unused.simps) simp
next
  case (Suc d)
  then have lt: "i < j" and d: "d = j - (i + 1)" and le: "i + 1 \<le> j" by simp_all
  from lt Suc.prems have "next_unused N {0..<int j} i = next_unused N {0..<int j} (i + 1)"
    by (subst next_unused.simps) simp
  also from Suc.hyps(1) [OF d le Suc.prems(2)] have "\<dots> = j" .
  finally show ?case .
qed

lemma collect_e_kinds:
  "(\<And>x. x \<in> set xs \<Longrightarrow> f x = Inl err \<or> (\<exists>ys. f x = Inr ys)) \<Longrightarrow>
   collect_e (map f xs) = Inl err \<or> (\<exists>rs. collect_e (map f xs) = Inr rs)"
proof (induction xs)
  case Nil
  show ?case by simp
next
  case (Cons x xs)
  from Cons.prems have hd: "f x = Inl err \<or> (\<exists>ys. f x = Inr ys)" by simp
  from Cons.prems have "collect_e (map f xs) = Inl err \<or> (\<exists>rs. collect_e (map f xs) = Inr rs)"
    by (intro Cons.IH) simp
  with hd show ?case by auto
qed

lemma collect_e_raises:
  "(\<And>x. x \<in> set xs \<Longrightarrow> f x = Inl err \<or> (\<exists>ys. f x = Inr ys)) \<Longrightarrow>
   y \<in> set xs \<Longrightarrow> f y = Inl err \<Longrightarrow> collect_e (map f xs) = Inl err"
proof (induction xs)
  case Nil
  then show ?case by simp
next
  case (Cons x xs)
  from Cons.prems(1) have hd: "f x = Inl err \<or> (\<exists>ys. f x = Inr ys)" by simp
  show ?case
  proof (cases "f x = Inl err")
    case True
    then show ?thesis by simp
  next
    case False
    with hd obtain ys where ys: "f x = Inr ys" by blast
    with Cons.prems(2,3) have "y \<in> set xs" by auto
    with Cons.prems(1,3) have "collect_e (map f xs) = Inl err"
      by (intro Cons.IH) simp_all
    with ys show ?thesis by simp
  qed
qed

lemma explore_kinds:
  "explore_segmentations room self txt pos used cur = Inl RecursionError
   \<or> (\<exists>rs. explore_segmentations room self txt pos used cur = Inr rs)"
proof (induction room arbitrary: pos used cur)
  case 0
  show ?case by (simp add: explore_no_room)
next
  case (Suc room)
  show ?case
  proof (cases "card used = length txt")
    case True
    then show ?thesis by (simp add: explore_terminal)
  next
    case nc: False
    show ?thesis
    proof (cases "length txt \<le> next_unused (length txt) used pos")
      case True
      with nc show ?thesis by (simp add: explore_stuck)
    next
      case False
      then have lt: "next_unused (length txt) used pos < length txt" by simp
      show ?thesis
        unfolding explore_unfold [OF nc lt]
        by (intro collect_e_kinds) (simp add: Suc.IH)
    qed
  qed
qed

lemma ka_explore_raises:
  "k + room \<le> n \<Longrightarrow>
   explore_segmentations room kaka_analyzer (ka_text n) 0 {0..<int (2 * k)} cur
   = Inl RecursionError"
proof (induction room arbitrary: k cur)
  case 0
  show ?case by (simp add: explore_no_room)
next
  case (Suc room)
  let ?T = "ka_text n" and ?used = "{0..<int (2 * k)}"
  from Suc.prems have k: "k < n" by simp
  then have nc: "card ?used \<noteq> length ?T" by (simp add: length_ka_text)
  from k have nu: "next_unused (length ?T) ?used 0 = 2 * k"
    by (intro next_unused_prefix) (simp_all add: length_ka_text)
  with k have lt: "next_unused (length ?T) ?used 0 < length ?T"
    by (simp add: length_ka_text)
  have p: "vowel_patterns kaka_analyzer = [[120, 3634]]"
    by (simp add: kaka_analyzer_def init_def)
  let ?G = "\<lambda>m. if int (next_unused (length ?T) ?used 0) \<in> set (m_positions m) then
             explore_segmentations room kaka_analyzer ?T 0 (?used \<union> set (m_positions m))
               (cur @ [syllable_of m])
           else Inr []"
  have mem: "ka_match k \<in> set (matches_of kaka_analyzer ?T [120, 3634] ?used)"
    unfolding matches_of_iff
  proof (intro exI conjI)
    show "- 5 \<le> int (2 * k)" by simp
    from k show "int (2 * k) < int (length ?T)" by (simp add: length_ka_text)
    from k show "if sym_x \<in> set [120, 3634] then 1 \<le> (1::nat) \<and> 1 \<le> min 3 (length ?T)
        else (1::nat) = 0"
      by (simp add: sym_x_def length_ka_text)
    show "try_match_pattern_with_foundation kaka_analyzer ?T (int (2 * k)) [120, 3634] ?used 1
        = Inr (Some (ka_match k))"
      by (rule ka_try_match [OF k])
    show "set (m_positions (ka_match k)) \<inter> ?used = {}"
      by (auto simp: ka_match_def)
  qed
  have un: "?used \<union> set (m_positions (ka_match k)) = {0..<int (2 * Suc k)}"
    by (auto simp: ka_match_def)
  from Suc.prems have "Suc k + room \<le> n" by simp
  from Suc.IH [OF this]
  have "?G (ka_match k) = Inl RecursionError"
    unfolding nu un by (simp add: ka_match_def)
  with mem have "collect_e (map ?G (matches_of kaka_analyzer ?T [120, 3634] ?used))
      = Inl RecursionError"
    by (intro collect_e_raises [where y = "ka_match k"]) (simp_all add: explore_kinds)
  then show ?case
    unfolding explore_unfold [OF nc lt] p by simp
qed

lemma ka_search_raises:
  assumes "0 < n" and "room \<le> n"
  shows "findThaiGraphemeOrderDomain room kaka_analyzer (ka_text n) = Inl RecursionError"
proof -
  from assms(1) have ne: "ka_text n \<noteq> []"
    using length_ka_text [of n] by auto
  from ka_explore_raises [of 0 room n "[]"] assms(2)
  have "explore_segmentations room kaka_analyzer (ka_text n) 0 {} [] = Inl RecursionError"
    by simp
  with ne show ?thesis by (simp add: findThaiGraphemeOrderDomain_def)
qed

section \<open>No reading is a result, not an error\<close>

text \<open>
  C8, as the code has it. The search can raise: its recursion is one call deep for every
  syllable it accepts, and a text that needs more nested calls than the interpreter has
  room for ends in \<open>RecursionError\<close>, terminal state or not. With the one template of
  \<open>kaka_analyzer\<close>, the text of 1200 syllables \<open>ka\<close> reaches no terminal state, and
  with room for 1000 activations the search of it raises. What holds is this. The search
  returns a result whenever the room is more than the number of characters of the text.
  Whenever it returns and the exploration has accepted no reading (no terminal state is
  reached), the result has no readings and \<open>is_ambiguous\<close> is false. The empty string
  has no readings and is not ambiguous, for any room. And \<open>RecursionError\<close> is the only
  error the search can raise.
\<close>

theorem zero_readings_is_a_result:
  "(length txt < room \<longrightarrow> (\<exists>res. findThaiGraphemeOrderDomain room self txt = Inr res))
   \<and> (explore_segmentations room self txt 0 {} [] = Inr [] \<longrightarrow>
        findThaiGraphemeOrderDomain room self txt
        = Inr \<lparr>r_text = txt, readings = [], is_ambiguous = False, unmatched = []\<rparr>)
   \<and> findThaiGraphemeOrderDomain room self []
        = Inr \<lparr>r_text = [], readings = [], is_ambiguous = False, unmatched = []\<rparr>
   \<and> (\<forall>e. findThaiGraphemeOrderDomain room self txt = Inl e \<longrightarrow>
        e = RecursionError \<and> room \<le> length txt)"
proof (intro conjI impI allI)
  assume "length txt < room"
  then show "\<exists>res. findThaiGraphemeOrderDomain room self txt = Inr res"
    by (simp add: search_result_room)
next
  assume "explore_segmentations room self txt 0 {} [] = Inr []"
  then show "findThaiGraphemeOrderDomain room self txt
        = Inr \<lparr>r_text = txt, readings = [], is_ambiguous = False, unmatched = []\<rparr>"
    by (simp add: findThaiGraphemeOrderDomain_def)
next
  show "findThaiGraphemeOrderDomain room self []
        = Inr \<lparr>r_text = [], readings = [], is_ambiguous = False, unmatched = []\<rparr>"
    by (simp add: findThaiGraphemeOrderDomain_def)
next
  fix e
  assume e: "findThaiGraphemeOrderDomain room self txt = Inl e"
  with search_result [of room self "txt"] show "e = RecursionError" by simp
  show "room \<le> length txt"
  proof (rule ccontr)
    assume "\<not> room \<le> length txt"
    then have "length txt < room" by simp
    from search_result_room [OF this, of self] e show False by simp
  qed
qed

theorem zero_readings_is_a_result_witness:
  "explore_segmentations 1000 (init {3618} [[120, 3634]]) [3618] 0 {} [] = Inr []
   \<and> findThaiGraphemeOrderDomain 1000 (init {3618} [[120, 3634]]) [3618]
       = Inr \<lparr>r_text = [3618], readings = [], is_ambiguous = False, unmatched = []\<rparr>
   \<and> findThaiGraphemeOrderDomain 1 kaka_analyzer [3585, 3634, 3585, 3634]
       = Inl RecursionError
   \<and> (1::nat) \<le> length [3585, 3634, 3585, 3634::nat]"
proof -
  have e: "explore_segmentations 1000 (init {3618} [[120, 3634]]) [3618] 0 {} [] = Inr []"
    by (simp add: explore_top_room lone_raw)
  have l: "length [3618::nat] < 1000" by simp
  have nc: "card ({}::int set) \<noteq> length [3585, 3634, 3585, 3634::nat]" by simp
  have lt: "next_unused (length [3585, 3634, 3585, 3634::nat]) {} 0
      < length [3585, 3634, 3585, 3634::nat]"
    by (simp add: next_unused_empty)
  have p: "vowel_patterns kaka_analyzer = [[120, 3634]]"
    by (simp add: kaka_analyzer_def init_def)
  have x: "explore_segmentations (Suc 0) kaka_analyzer [3585, 3634, 3585, 3634] 0 {} []
      = Inl RecursionError"
    unfolding explore_unfold [OF nc lt] p
    by (simp add: kaka_matches next_unused_empty explore_no_room ka_first_def)
  then have k: "findThaiGraphemeOrderDomain 1 kaka_analyzer [3585, 3634, 3585, 3634]
      = Inl RecursionError"
    by (simp add: findThaiGraphemeOrderDomain_def)
  from zero_readings_is_a_result [of "[3618]" 1000 "init {3618} [[120, 3634]]"] e l
  have "findThaiGraphemeOrderDomain 1000 (init {3618} [[120, 3634]]) [3618]
       = Inr \<lparr>r_text = [3618], readings = [], is_ambiguous = False, unmatched = []\<rparr>"
    by blast
  moreover
  from zero_readings_is_a_result [of "[3585, 3634, 3585, 3634]" 1 kaka_analyzer] k
  have "(1::nat) \<le> length [3585, 3634, 3585, 3634::nat]" by blast
  ultimately show ?thesis using e k by blast
qed

theorem recursion_limit_counterexample:
  "explore_segmentations 3000 kaka_analyzer (ka_text 1200) 0 {} [] = Inr []
   \<and> findThaiGraphemeOrderDomain 1000 kaka_analyzer (ka_text 1200) = Inl RecursionError"
proof -
  have ne: "ka_text 1200 \<noteq> []"
    using length_ka_text [of 1200] by auto
  have "explore_segmentations 3000 kaka_analyzer (ka_text 1200) 0 {} []
      = Inr (raw_readings kaka_analyzer (ka_text 1200))"
    by (rule explore_top_room [OF ne]) (simp add: length_ka_text)
  then show ?thesis by (simp add: ka_raw ka_search_raises)
qed

section \<open>Coverage\<close>

text \<open>
  C2. Every reading of the result is one syllable, made from a match of a pattern of the
  catalog at start offset 0 whose consumed positions are the list \<open>0, 1, \<dots>, len(text) - 1\<close>:
  every position of the text, each once, with no gap and no overlap.
\<close>

theorem coverage_invariant:
  assumes "findThaiGraphemeOrderDomain room self txt = Inr res" and "r \<in> set (readings res)"
  shows "\<exists>pattern c m. pattern \<in> set (vowel_patterns self)
      \<and> try_match_pattern_with_foundation self txt 0 pattern {} c = Inr (Some m)
      \<and> syllables r = [syllable_of m]
      \<and> m_positions m = [0..int (length txt) - 1]
      \<and> distinct (m_positions m)
      \<and> set (m_positions m) = {0..<int (length txt)}"
proof -
  from raw_readings_match [OF readings_raw(2) [OF assms]]
  obtain pattern c m where "pattern \<in> set (vowel_patterns self)"
    and "try_match_pattern_with_foundation self txt 0 pattern {} c = Inr (Some m)"
    and "syllables r = [syllable_of m]"
    and p: "m_positions m = [0..int (length txt) - 1]"
    by blast
  moreover from p have "distinct (m_positions m)" by simp
  moreover from p have "set (m_positions m) = {0..<int (length txt)}" by auto
  ultimately show ?thesis by blast
qed

theorem coverage_invariant_witness:
  "findThaiGraphemeOrderDomain 1000 elw_analyzer [3648, 3621, 3623]
     = Inr \<lparr>r_text = [3648, 3621, 3623],
            readings = [elw_reading_1, elw_reading_2, elw_reading_3],
            is_ambiguous = True, unmatched = []\<rparr>
   \<and> (\<exists>pattern c m. pattern \<in> set (vowel_patterns elw_analyzer)
      \<and> try_match_pattern_with_foundation elw_analyzer [3648, 3621, 3623] 0 pattern {} c
          = Inr (Some m)
      \<and> syllables elw_reading_3 = [syllable_of m]
      \<and> m_positions m = [0, 1, 2])"
proof -
  have u: "[0..int (length [3648, 3621, 3623::nat]) - 1] = [0, 1, 2]"
    by (simp add: upto_rec1)
  have "elw_reading_3 \<in> set (readings \<lparr>r_text = [3648, 3621, 3623],
            readings = [elw_reading_1, elw_reading_2, elw_reading_3],
            is_ambiguous = True, unmatched = []\<rparr>)"
    by simp
  from coverage_invariant [OF elw_result this] elw_result show ?thesis
    unfolding u by blast
qed

section \<open>The foundation invariant\<close>

lemma cons_pos_step: "cons_pos self txt start k < cons_pos self txt start (Suc k)"
  by (simp add: cons_pos.simps(2))

lemma cons_pos_mono: "i \<le> j \<Longrightarrow> cons_pos self txt start i \<le> cons_pos self txt start j"
proof (induction j)
  case 0
  then show ?case by simp
next
  case (Suc j)
  show ?case
  proof (cases "i = Suc j")
    case True
    then show ?thesis by simp
  next
    case False
    with Suc.prems have "i \<le> j" by simp
    from Suc.IH [OF this] cons_pos_step [of self "txt" start j] show ?thesis by simp
  qed
qed

lemma match_foundation_ok:
  assumes ok: "match_foundation self txt start_pos c = Inr (Some f)"
  shows "container_ok self txt f"
proof -
  note inv = match_foundation_inv(3) [OF ok]
  note d = mf_invD [OF inv]
  have cons: "set (consonants f) \<subseteq> foundation self"
  proof
    fix x assume "x \<in> set (consonants f)"
    then obtain i where i: "i < length (consonants f)" "consonants f ! i = x"
      by (auto simp: in_set_conv_nth)
    with d(4) have "i < c" by simp
    from d(7) [OF this] d(8) [OF this] i(2) show "x \<in> foundation self" by simp
  qed
  show ?thesis
  proof (cases "tone f")
    case None
    with cons show ?thesis by (simp add: container_ok_def)
  next
    case (Some t)
    with d(9) obtain k where k: "tone_owner f = Some k" by (cases "tone_owner f") auto
    from d(11) [OF k] Some have kc: "k < c" and tk: "toned self txt start_pos k"
      and t: "t = txt ! nat (cons_pos self txt start_pos k + 1)" by simp_all
    from kc have c1: "1 \<le> c" by simp
    from match_foundation_cursor [OF ok c1] d(5) have hd: "hd (positions f) = start_pos"
      by (simp add: upto_rec1)
    let ?q = "cons_pos self txt start_pos k"
    from tk have tq: "?q + 1 < int (length txt)" "txt ! nat (?q + 1) \<in> tone_marks self"
      by (simp_all add: toned_def)
    from cons_pos_lower [of start_pos k self "txt"] d(1) have lo: "start_pos \<le> ?q" "0 \<le> ?q"
      by simp_all
    from cons_pos_Suc_toned [OF tk] cons_pos_mono [of "Suc k" c self "txt" start_pos] kc
    have hi: "?q + 2 \<le> cons_pos self txt start_pos c" by simp
    from lo hi d(5) have mem: "?q \<in> set (positions f)" "?q + 1 \<in> set (positions f)"
      by simp_all
    from d(7) [OF kc] have ch: "txt ! nat ?q = consonants f ! k" by simp
    from cons Some k kc d(4) mem lo(2) ch tq t show ?thesis
      by (simp add: container_ok_def hd)
  qed
qed

lemma try_match_containers:
  assumes t: "try_match_pattern_with_foundation self txt start_pos pattern used c = Inr (Some m)"
    and c: "1 \<le> c \<or> sym_x \<notin> set pattern"
    and f: "m_foundation m = Some f \<or> m_final m = Some f"
  shows "\<exists>st n. match_foundation self txt st n = Inr (Some f)"
proof -
  note l = t [unfolded try_match_pattern_with_foundation_def]
  from f show ?thesis
  proof
    assume "m_foundation m = Some f"
    with tm_loop_foundation [OF l c] show ?thesis
      by (auto simp: empty_match_def split: if_splits)
  next
    assume "m_final m = Some f"
    with tm_loop_final [OF l c] show ?thesis
      by (auto simp: empty_match_def split: if_splits)
  qed
qed

text \<open>
  C5. Every foundation container and every final container of a syllable of a returned
  reading satisfies the invariant: its consonants are members of the foundation set, and a
  recorded tone is a member of the tone marks, stands in the text immediately after its
  recorded owner consonant, and its position is among the positions of the container.
\<close>

theorem foundation_invariant:
  assumes "findThaiGraphemeOrderDomain room self txt = Inr res" and "r \<in> set (readings res)"
    and "s \<in> set (syllables r)" and "s_foundation s = Some f \<or> s_final s = Some f"
  shows "container_ok self txt f"
proof -
  from raw_readings_match [OF readings_raw(2) [OF assms(1,2)]]
  obtain pattern c m where
    c: "if sym_x \<in> set pattern then 1 \<le> c \<and> c \<le> min 3 (length txt) else c = 0"
    and t: "try_match_pattern_with_foundation self txt 0 pattern {} c = Inr (Some m)"
    and r: "syllables r = [syllable_of m]"
    by blast
  from c have c': "1 \<le> c \<or> sym_x \<notin> set pattern" by (auto split: if_splits)
  from r assms(3) have "s = syllable_of m" by simp
  with assms(4) have "m_foundation m = Some f \<or> m_final m = Some f"
    by (simp add: syllable_of_def)
  from try_match_containers [OF t c' this] obtain st n where
    "match_foundation self txt st n = Inr (Some f)" by blast
  then show ?thesis by (rule match_foundation_ok)
qed

theorem foundation_invariant_witness:
  "findThaiGraphemeOrderDomain 1000 aya_analyzer [3629, 3618, 3656, 3634]
     = Inr \<lparr>r_text = [3629, 3618, 3656, 3634], readings = [aya_reading],
            is_ambiguous = False, unmatched = []\<rparr>
   \<and> s_foundation (hd (syllables aya_reading))
       = Some \<lparr>consonants = [3629, 3618], tone = Some 3656, tone_owner = Some 1,
               positions = [0, 1, 2]\<rparr>
   \<and> container_ok aya_analyzer [3629, 3618, 3656, 3634]
       \<lparr>consonants = [3629, 3618], tone = Some 3656, tone_owner = Some 1,
        positions = [0, 1, 2]\<rparr>
   \<and> cons_pos aya_analyzer [3629, 3618, 3656, 3634] 0 1 = 1"
proof -
  have a: "aya_reading \<in> set (readings \<lparr>r_text = [3629, 3618, 3656, 3634],
      readings = [aya_reading], is_ambiguous = False, unmatched = []\<rparr>)"
    by simp
  have b: "hd (syllables aya_reading) \<in> set (syllables aya_reading)"
    by (simp add: aya_reading_def)
  have c: "s_foundation (hd (syllables aya_reading))
       = Some \<lparr>consonants = [3629, 3618], tone = Some 3656, tone_owner = Some 1,
               positions = [0, 1, 2]\<rparr>"
    by (simp add: aya_reading_def)
  have d: "cons_pos aya_analyzer [3629, 3618, 3656, 3634] 0 1 = 1"
    by (simp add: cons_pos.simps(2) aya_analyzer_def init_def thai_tone_marks_def)
  from foundation_invariant [OF aya_result a b disjI1, OF c] aya_result c d
  show ?thesis by simp
qed

section \<open>Deduplication\<close>








section \<open>Exhaustiveness\<close>






end
